theory Spec2Isabelle
  imports Complex_Main "HOL-Library.Sublist"
begin

section \<open>Text, characters and constants of batch-ocr.py\<close>

text \<open>
  A Python \<open>str\<close> is a sequence of Unicode code points; \<open>len\<close>, iteration,
  \<open>c.isalpha()\<close> and \<open>c in DIACRITICS\<close> all work on code points. A character is
  therefore the number of its code point and a string a list of them. ASCII literals of
  the source are written through \<open>ascii\<close>.
\<close>

type_synonym pychar = nat
type_synonym pystr = "pychar list"

definition ascii :: "string \<Rightarrow> pystr" where
  "ascii s = map of_char s"

text \<open>
  \<open>DIACRITICS\<close>, lines 35-38: the 67 lower-case and the 67 upper-case Vietnamese
  letters of the two literals, in the order of the source, by code point.
\<close>

definition DIACRITICS :: "pychar list" where
  "DIACRITICS =
    [224, 225, 7843, 227, 7841, 259, 7855, 7857, 7859, 7861, 7863, 226, 7845, 7847, 7849,
     7851, 7853, 232, 233, 7867, 7869, 7865, 234, 7871, 7873, 7875, 7877, 7879, 236, 237,
     7881, 297, 7883, 242, 243, 7887, 245, 7885, 244, 7889, 7891, 7893, 7895, 7897, 417,
     7899, 7901, 7903, 7905, 7907, 249, 250, 7911, 361, 7909, 432, 7913, 7915, 7917, 7919,
     7921, 7923, 253, 7927, 7929, 7925, 273,
     192, 193, 7842, 195, 7840, 258, 7854, 7856, 7858, 7860, 7862, 194, 7844, 7846, 7848,
     7850, 7852, 200, 201, 7866, 7868, 7864, 202, 7870, 7872, 7874, 7876, 7878, 204, 205,
     7880, 296, 7882, 210, 211, 7886, 213, 7884, 212, 7888, 7890, 7892, 7894, 7896, 416,
     7898, 7900, 7902, 7904, 7906, 217, 218, 7910, 360, 7908, 431, 7912, 7914, 7916, 7918,
     7920, 7922, 221, 7926, 7928, 7924, 272]"

definition MIN_CHARS_FOR_PAGE :: nat where
  "MIN_CHARS_FOR_PAGE = 50"

definition NATIVE_TEXT_THRESHOLD :: nat where
  "NATIVE_TEXT_THRESHOLD = 50"

text \<open>
  \<open>sum(1 for c in text if c.isalpha())\<close>. The predicate \<open>str.isalpha\<close> is the
  Unicode database of the interpreter; it is a parameter of the model.
\<close>

definition alpha_count :: "(pychar \<Rightarrow> bool) \<Rightarrow> pystr \<Rightarrow> nat" where
  "alpha_count isalpha text = length (filter isalpha text)"

text \<open>The loop of lines 147-150: one count per character that is in \<open>DIACRITICS\<close>.\<close>

definition diacritics_count :: "pystr \<Rightarrow> nat" where
  "diacritics_count text = length (filter (\<lambda>ch. ch \<in> set DIACRITICS) text)"

subsection \<open>The comparison \<open>diacritics_count / alpha_count >= MIN_DIACRITICS_RATIO\<close>\<close>

text \<open>
  Both sides of the comparison are binary64 numbers. \<open>MIN_DIACRITICS_RATIO = 0.15\<close> is
  the double nearest to 15/100; it lies between 1/8 and 1/4, so it is a 53-bit integer
  times \<open>2 ^ -55\<close>, namely 15/100 * 2 ^ 55 rounded to the nearest integer, ties to even.
  Python's \<open>int / int\<close> is the correctly rounded quotient. Rounding is monotone and
  leaves 1/8 and 1/4 alone, so a quotient of at least 1/4 rounds to at least 1/4, one
  below 1/8 rounds to at most 1/8, and one in between is rounded on the same grid
  of multiples of \<open>2 ^ -55\<close> as the constant.
\<close>

definition round_half_even :: "rat \<Rightarrow> int" where
  "round_half_even q =
     (let f = \<lfloor>q\<rfloor>; r = q - of_int f
      in if r < 1 / 2 then f
         else if 1 / 2 < r then f + 1
         else if even f then f else f + 1)"

definition MIN_DIACRITICS_RATIO :: rat where
  "MIN_DIACRITICS_RATIO = of_int (round_half_even (15 / 100 * 2 ^ 55)) / 2 ^ 55"

definition py_truediv :: "nat \<Rightarrow> nat \<Rightarrow> rat" where
  "py_truediv d a =
     (let q = of_nat d / of_nat a
      in if 1 / 4 \<le> q \<or> q < 1 / 8 then q
         else of_int (round_half_even (q * 2 ^ 55)) / 2 ^ 55)"

text \<open>
  \<open>py_truediv d a\<close> stands for the double \<open>d / a\<close> in the comparison with
  \<open>MIN_DIACRITICS_RATIO\<close> only: outside of the interval from 1/8 to 1/4 it keeps the
  exact quotient, which is on the same side of the constant as its rounding. It is
  used for \<open>0 < a\<close> (line 145 has returned before a division by zero).
\<close>

definition tesseract_quality_ok :: "(pychar \<Rightarrow> bool) \<Rightarrow> pystr \<Rightarrow> bool" where
  "tesseract_quality_ok isalpha text =
     (if alpha_count isalpha text < MIN_CHARS_FOR_PAGE then False
      else MIN_DIACRITICS_RATIO \<le> py_truediv (diacritics_count text) (alpha_count isalpha text))"


section \<open>Paths and the output name\<close>

text \<open>\<open>str.split(sep)\<close> for a one-character separator.\<close>

fun split_on :: "pychar \<Rightarrow> pystr \<Rightarrow> pystr list" where
  "split_on sep [] = [[]]"
| "split_on sep (c # cs) =
     (if c = sep then [] # split_on sep cs
      else (case split_on sep cs of
              [] \<Rightarrow> [[c]]
            | p # ps \<Rightarrow> (c # p) # ps))"

text \<open>
  The components \<open>PurePosixPath\<close> keeps of a path string: empty components and
  \<open>.\<close> are dropped, \<open>..\<close> stays. \<open>Path(s).name\<close> is the last of them,
  the empty string when there is none.
\<close>

definition path_parts :: "pystr \<Rightarrow> pystr list" where
  "path_parts s = filter (\<lambda>p. p \<noteq> [] \<and> p \<noteq> ascii ''.'') (split_on 47 s)"

definition path_name :: "pystr \<Rightarrow> pystr" where
  "path_name s = (case path_parts s of [] \<Rightarrow> [] | p # ps \<Rightarrow> last (p # ps))"

text \<open>\<open>name.rfind('.')\<close>: the index of the last dot, \<open>None\<close> for Python's -1.\<close>

definition rfind :: "pychar \<Rightarrow> pystr \<Rightarrow> nat option" where
  "rfind c s =
     (if c \<in> set s then Some (length s - 1 - length (takeWhile (\<lambda>x. x \<noteq> c) (rev s)))
      else None)"

text \<open>
  \<open>PurePath.stem\<close>: the name up to its last dot, when that dot is neither the first
  nor the last character (\<open>0 < i < len(name) - 1\<close>); the whole name otherwise.
  \<open>with_suffix('')\<close> leaves the same string as the last component.
\<close>

definition stem :: "pystr \<Rightarrow> pystr" where
  "stem name =
     (case rfind 46 name of
        None \<Rightarrow> name
      | Some i \<Rightarrow> if 0 < i \<and> i + 1 < length name then take i name else name)"

text \<open>\<open>'/'.join(parts)\<close>, the \<open>str\<close> of a relative path with these components.\<close>

fun join_slash :: "pystr list \<Rightarrow> pystr" where
  "join_slash [] = []"
| "join_slash [p] = p"
| "join_slash (p # q # ps) = p @ [47] @ join_slash (q # ps)"

text \<open>\<open>s.replace('/', '--')\<close>.\<close>

definition replace_slash :: "pystr \<Rightarrow> pystr" where
  "replace_slash s = concat (map (\<lambda>c. if c = 47 then [45, 45] else [c]) s)"

datatype exn = ValueError | Raised string

text \<open>
  What the interpreter and the libraries supply. \<open>resolve\<close> is
  \<open>Path(p).resolve()\<close>, the components of the absolute path below the root
  directory (it reads the working directory and the symbolic links of the machine);
  \<open>DATA_DIR\<close> is the resolved data root, in components. An image is the identifier
  of a pixel buffer, a model or processor the identifier of a loaded object.
  Every call into a library returns its value or the exception it raised.
\<close>

type_synonym image = nat
type_synonym handle = nat

record page =
  text_layer :: "exn + pystr"
  raster :: "exn + image"

record document =
  forms :: "exn option"
  pages :: "page list"

record env =
  isalpha :: "pychar \<Rightarrow> bool"
  isspace :: "pychar \<Rightarrow> bool"
  resolve :: "pystr \<Rightarrow> pystr list"
  DATA_DIR :: "pystr list"
  OUTPUT_BASE :: pystr
  open_document :: "pystr \<Rightarrow> exn + document"
  image_to_string :: "image \<Rightarrow> exn + pystr"
  mlx_load :: "exn + handle \<times> handle"
  mlx_chat_template :: "handle \<Rightarrow> exn + pystr"
  mlx_generate :: "handle option \<Rightarrow> handle option \<Rightarrow> pystr \<Rightarrow> image \<Rightarrow> exn + pystr"
  clock :: "nat \<Rightarrow> rat"

text \<open>
  \<open>_to_output_name\<close>, lines 43-48. \<open>relative_to\<close> raises \<open>ValueError\<close> when
  the data root is not a prefix of the resolved path; that one is caught and the stem of
  the path as given is returned. \<open>with_suffix\<close> raises \<open>ValueError\<close> on a path
  with an empty name, which here is the data root itself; line 48 is outside of the
  \<open>try\<close>, so that one leaves the function.
\<close>

definition to_output_name :: "env \<Rightarrow> pystr \<Rightarrow> exn + pystr" where
  "to_output_name E pdf_path =
     (let p = resolve E pdf_path; n = length (DATA_DIR E)
      in if take n p = DATA_DIR E then
           (let rel = drop n p
            in if rel = [] then Inl ValueError
               else Inr (replace_slash (join_slash (butlast rel @ [stem (last rel)]))))
         else Inr (stem (path_name pdf_path)))"

definition md_path :: "env \<Rightarrow> pystr \<Rightarrow> pystr" where
  "md_path E unique_name = OUTPUT_BASE E @ ascii ''/'' @ unique_name @ ascii ''.md''"

definition tmp_path :: "env \<Rightarrow> pystr \<Rightarrow> pystr" where
  "tmp_path E unique_name = OUTPUT_BASE E @ ascii ''/'' @ unique_name @ ascii ''.md.tmp''"

section \<open>State of a batch\<close>

datatype tag = Tess | Vlm | Txt

text \<open>\<open>ChandraState\<close>, lines 190-195, and \<open>PageCounts\<close>, lines 217-221 (its fields \<open>tess\<close>,
  \<open>vlm\<close>, \<open>txt\<close> with the prefix \<open>c_\<close>).\<close>

record chandra_state =
  model :: "handle option"
  processor :: "handle option"
  formatted_prompt :: pystr
  loaded :: bool

record page_counts =
  c_tess :: int
  c_vlm :: int
  c_txt :: int

text \<open>
  One dictionary of \<open>recent_files\<close> (lines 374-379), the \<open>Progress\<close> dataclass (lines
  69-80) and the dictionary \<open>_save_progress\<close> serialises. \<open>current_page\<close> is the
  string \<open>'-'\<close> or \<open>f'{p_idx + 1}/{num_pages}'\<close>; the model keeps the two numbers. Of
  the dictionary the model keeps the keys copied or computed from counters; the
  keys formatted from clock readings (\<open>elapsed\<close>, \<open>avg_per_file\<close>, \<open>eta\<close>,
  \<open>eta_hours\<close>, \<open>updated\<close>) are left out.
\<close>

record recent_file =
  name :: pystr
  pages_done :: int
  duration :: rat
  per_page :: rat

datatype page_label = Dash | PageOf int int

record progress =
  p_done :: int
  p_total :: int
  p_errors :: int
  p_current_file :: pystr
  p_current_page :: page_label
  p_current_pages_total :: int
  p_current_file_started :: rat
  p_elapsed :: rat
  p_avg_per_file :: rat
  p_recent_files :: "recent_file list"

record snapshot =
  j_done :: int
  j_total :: int
  j_errors :: int
  j_pct :: rat
  j_current_file :: pystr
  j_current_page :: page_label
  j_current_pages_total :: int
  j_current_file_started :: rat
  j_recent_files :: "recent_file list"

text \<open>The lines \<open>_log\<close> writes, without their time stamps and durations.\<close>

datatype log_line =
    LogTotals int int int
  | LogNothing
  | LogHybrid
  | LogFile int int int int pystr int
  | LogPage int int tag int
  | LogLoading
  | LogLoaded
  | LogFileDone
  | LogError pystr exn
  | LogComplete int int
  | LogStats int int int

text \<open>
  Everything the program does to the outside, in the order it does it. The events of
  \<open>_render_page\<close> (\<open>GetText\<close>, \<open>RenderPage\<close>) happen on the worker thread; the
  model runs a submitted extraction at once, so they follow their \<open>Submit\<close>.
\<close>

datatype event =
    Log log_line
  | SaveProgress snapshot
  | FreeMemory
  | OpenDocument pystr
  | InitForms
  | CloseDocument
  | Submit nat
  | GetText nat
  | RenderPage nat
  | TesseractOcr image
  | MlxLoad
  | ChandraOcr "handle option" "handle option" pystr image
  | OpenWrite pystr
  | WriteText pystr pystr
  | Rename pystr pystr
  | Unlink pystr
  | Shutdown

text \<open>
  The mutable world: the files of the output directory by path, the status artifact,
  the trace of events, the two objects \<open>_run_ocr\<close> creates and \<open>_ocr_one_file\<close>
  mutates, and the number of clock readings taken so far.
\<close>

record state =
  files :: "pystr \<Rightarrow> pystr option"
  status_file :: "snapshot option"
  trace :: "event list"
  chandra :: chandra_state
  counts :: page_counts
  ticks :: nat

definition emit :: "event \<Rightarrow> state \<Rightarrow> state" where
  "emit e s = s\<lparr>trace := trace s @ [e]\<rparr>"

definition log :: "log_line \<Rightarrow> state \<Rightarrow> state" where
  "log l s = emit (Log l) s"

definition free_memory :: "state \<Rightarrow> state" where
  "free_memory s = emit FreeMemory s"

text \<open>
  \<open>time.time()\<close>: the next reading of the clock. Only the readings that reach a
  \<open>Progress\<close> or a \<open>recent_files\<close> entry are taken; those that are only formatted
  into a log line are not.
\<close>

definition time_time :: "env \<Rightarrow> state \<Rightarrow> rat \<times> state" where
  "time_time E s = (clock E (ticks s), s\<lparr>ticks := Suc (ticks s)\<rparr>)"

text \<open>\<open>round(x, 1)\<close>, on the exact value.\<close>

definition round1 :: "rat \<Rightarrow> rat" where
  "round1 x = of_int (round_half_even (x * 10)) / 10"

text \<open>\<open>xs[-10:]\<close>.\<close>

definition last10 :: "'a list \<Rightarrow> 'a list" where
  "last10 xs = drop (length xs - 10) xs"

text \<open>\<open>_save_progress\<close>, lines 83-104: the status artifact is overwritten.\<close>

definition save_progress :: "progress \<Rightarrow> state \<Rightarrow> state" where
  "save_progress p s =
     (let snap = \<lparr> j_done = p_done p, j_total = p_total p, j_errors = p_errors p,
                   j_pct = round1 (of_int (p_done p) / of_int (max (p_total p) 1) * 100),
                   j_current_file = p_current_file p,
                   j_current_page = p_current_page p,
                   j_current_pages_total = p_current_pages_total p,
                   j_current_file_started = p_current_file_started p,
                   j_recent_files = last10 (p_recent_files p) \<rparr>
      in emit (SaveProgress snap) (s\<lparr>status_file := Some snap\<rparr>))"

section \<open>Page extraction and engine selection\<close>

text \<open>\<open>str.strip()\<close>: white space is dropped at both ends.\<close>

definition strip :: "(pychar \<Rightarrow> bool) \<Rightarrow> pystr \<Rightarrow> pystr" where
  "strip sp text = rev (dropWhile sp (rev (dropWhile sp text)))"

text \<open>
  \<open>_render_page\<close>, lines 154-167. \<open>doc[page_idx]\<close> raises for an index the document
  does not have. The branch of lines 162-167 (scale, flatten, render, convert, crop) is
  the page's \<open>raster\<close>: the cropped image or the exception of one of these calls.
\<close>

definition render_page ::
  "env \<Rightarrow> document \<Rightarrow> nat \<Rightarrow> state \<Rightarrow> (exn + image option \<times> pystr) \<times> state" where
  "render_page E doc page_idx s =
     (if length (pages doc) \<le> page_idx then (Inl (Raised ''Failed to load page.''), s)
      else
        (let page_obj = pages doc ! page_idx; s1 = emit (GetText page_idx) s
         in case text_layer page_obj of
              Inl e \<Rightarrow> (Inl e, s1)
            | Inr text \<Rightarrow>
                if NATIVE_TEXT_THRESHOLD \<le> alpha_count (isalpha E) text
                then (Inr (None, strip (isspace E) text), s1)
                else
                  (let s2 = emit (RenderPage page_idx) s1
                   in case raster page_obj of
                        Inl e \<Rightarrow> (Inl e, s2)
                      | Inr img \<Rightarrow> (Inr (Some img, []), s2))))"

text \<open>
  \<open>executor.submit(_render_page, doc, i)\<close>: the future holds what the call returned
  or raised; \<open>next_future.result()\<close> hands it over or raises it.
\<close>

definition submit ::
  "env \<Rightarrow> document \<Rightarrow> nat \<Rightarrow> state \<Rightarrow> (exn + image option \<times> pystr) \<times> state" where
  "submit E doc i s = render_page E doc i (emit (Submit i) s)"

text \<open>\<open>_tesseract_ocr\<close>, lines 137-140.\<close>

definition tesseract_ocr :: "env \<Rightarrow> image \<Rightarrow> state \<Rightarrow> (exn + pystr) \<times> state" where
  "tesseract_ocr E img s = (image_to_string E img, emit (TesseractOcr img) s)"

text \<open>
  \<open>_load_chandra\<close>, lines 198-214. \<open>load\<close> may raise before anything is assigned;
  \<open>load_config\<close> and \<open>apply_chat_template\<close> may raise after \<open>model\<close> and
  \<open>processor\<close> are assigned and before \<open>loaded\<close> is set.
\<close>

definition load_chandra :: "env \<Rightarrow> state \<Rightarrow> (exn + unit) \<times> state" where
  "load_chandra E s =
     (if loaded (chandra s) then (Inr (), s)
      else
        (let s1 = emit MlxLoad (log LogLoading s)
         in case mlx_load E of
              Inl e \<Rightarrow> (Inl e, s1)
            | Inr (m, pr) \<Rightarrow>
                (let s2 = s1\<lparr>chandra := (chandra s1)\<lparr>model := Some m, processor := Some pr\<rparr>\<rparr>
                 in case mlx_chat_template E pr of
                      Inl e \<Rightarrow> (Inl e, s2)
                    | Inr fp \<Rightarrow>
                        (Inr (),
                         log LogLoaded
                           (s2\<lparr>chandra := (chandra s2)\<lparr>formatted_prompt := fp,
                                                        loaded := True\<rparr>\<rparr>)))))"

text \<open>\<open>_chandra_ocr\<close>, lines 170-187.\<close>

definition chandra_ocr ::
  "env \<Rightarrow> handle option \<Rightarrow> handle option \<Rightarrow> pystr \<Rightarrow> image \<Rightarrow> state \<Rightarrow> (exn + pystr) \<times> state" where
  "chandra_ocr E m pr fp img s = (mlx_generate E m pr fp img, emit (ChandraOcr m pr fp img) s)"

text \<open>
  Lines 274-289 of \<open>_ocr_one_file\<close>: the text and the tag of one page, from what its
  extraction returned.
\<close>

definition page_markdown ::
  "env \<Rightarrow> image option \<times> pystr \<Rightarrow> state \<Rightarrow> (exn + pystr \<times> tag) \<times> state" where
  "page_markdown E unit s =
     (case fst unit of
        Some img \<Rightarrow>
          (case tesseract_ocr E img s of
             (Inl e, s1) \<Rightarrow> (Inl e, s1)
           | (Inr tess_text, s1) \<Rightarrow>
               if tesseract_quality_ok (isalpha E) tess_text
               then (Inr (tess_text, Tess),
                     s1\<lparr>counts := (counts s1)\<lparr>c_tess := c_tess (counts s1) + 1\<rparr>\<rparr>)
               else
                 (case load_chandra E s1 of
                    (Inl e, s2) \<Rightarrow> (Inl e, s2)
                  | (Inr u, s2) \<Rightarrow>
                      (case chandra_ocr E (model (chandra s2)) (processor (chandra s2))
                              (formatted_prompt (chandra s2)) img s2 of
                         (Inl e, s3) \<Rightarrow> (Inl e, s3)
                       | (Inr md, s3) \<Rightarrow>
                           (Inr (md, Vlm),
                            s3\<lparr>counts := (counts s3)\<lparr>c_vlm := c_vlm (counts s3) + 1\<rparr>\<rparr>))))
      | None \<Rightarrow>
          (Inr (snd unit, Txt), s\<lparr>counts := (counts s)\<lparr>c_txt := c_txt (counts s) + 1\<rparr>\<rparr>))"

section \<open>The file processor\<close>

text \<open>The output directory: \<open>open('w')\<close>, \<open>write\<close> with \<open>flush\<close>, \<open>rename\<close>,
  and the \<open>exists\<close>/\<open>unlink\<close> pair of lines 307-308.\<close>

definition open_write :: "pystr \<Rightarrow> state \<Rightarrow> state" where
  "open_write p s = emit (OpenWrite p) (s\<lparr>files := (files s)(p \<mapsto> [])\<rparr>)"

definition write_text :: "pystr \<Rightarrow> pystr \<Rightarrow> state \<Rightarrow> state" where
  "write_text p data s =
     emit (WriteText p data)
       (s\<lparr>files := (files s)(p \<mapsto> (case files s p of None \<Rightarrow> [] | Some c \<Rightarrow> c) @ data)\<rparr>)"

definition rename :: "pystr \<Rightarrow> pystr \<Rightarrow> state \<Rightarrow> (exn + unit) \<times> state" where
  "rename a b s =
     (case files s a of
        None \<Rightarrow> (Inl (Raised ''FileNotFoundError''), s)
      | Some c \<Rightarrow> (Inr (), emit (Rename a b) (s\<lparr>files := (files s)(a := None, b \<mapsto> c)\<rparr>)))"

definition unlink_if_exists :: "pystr \<Rightarrow> state \<Rightarrow> state" where
  "unlink_if_exists p s =
     (if files s p \<noteq> None then emit (Unlink p) (s\<lparr>files := (files s)(p := None)\<rparr>) else s)"

text \<open>The arguments of \<open>_ocr_one_file\<close> after \<open>pdf\<close>, \<open>chandra\<close> and \<open>counts\<close>.\<close>

record args =
  a_done_count :: int
  a_idx :: int
  a_pending_len :: int
  a_total :: int
  a_errors :: int
  a_avg :: rat
  a_pipeline_start :: rat
  a_recent_files :: "recent_file list"

text \<open>Lines 253-266: the snapshot written at the top of an iteration.\<close>

definition page_progress ::
  "env \<Rightarrow> document \<Rightarrow> args \<Rightarrow> pystr \<Rightarrow> rat \<Rightarrow> nat \<Rightarrow> state \<Rightarrow> state" where
  "page_progress E doc A display_name file_start p_idx s =
     (let num_pages = length (pages doc);
          (now, s0) = time_time E s
      in save_progress
           \<lparr> p_done = a_done_count A + a_idx A - 1, p_total = a_total A,
             p_errors = a_errors A, p_current_file = display_name,
             p_current_page = PageOf (int p_idx + 1) (int num_pages),
             p_current_pages_total = int num_pages,
             p_current_file_started = file_start,
             p_elapsed = now - a_pipeline_start A, p_avg_per_file = a_avg A,
             p_recent_files = a_recent_files A \<rparr> s0)"

text \<open>Lines 271-272: the next page's extraction is submitted unless this is the last page.\<close>

definition prefetch ::
  "env \<Rightarrow> document \<Rightarrow> (exn + image option \<times> pystr) \<Rightarrow> nat \<Rightarrow> state \<Rightarrow>
   (exn + image option \<times> pystr) \<times> state" where
  "prefetch E doc next_future p_idx s =
     (if p_idx + 1 < length (pages doc) then submit E doc (p_idx + 1) s else (next_future, s))"

text \<open>Lines 291-298: the page's text goes to the temporary file, after a blank line
  when it is not the first page.\<close>

definition write_page :: "document \<Rightarrow> pystr \<Rightarrow> nat \<Rightarrow> pystr \<Rightarrow> tag \<Rightarrow> state \<Rightarrow> state" where
  "write_page doc tmp p_idx md tg s =
     (let num_pages = length (pages doc);
          s1 = (if 0 < p_idx then write_text tmp (ascii [CHR 0x0A, CHR 0x0A]) s else s);
          s2 = write_text tmp md s1;
          s3 = log (LogPage (int p_idx + 1) (int num_pages) tg (int (length md))) s2
      in if p_idx mod 10 = 9 then free_memory s3 else s3)"

text \<open>
  The body of the loop of lines 252-298 for one \<open>p_idx\<close>: it takes
  \<open>next_future\<close> as it stands at the top of the iteration and returns it as it
  stands at the end. An exception leaves with the state reached.
\<close>

definition page_step ::
  "env \<Rightarrow> document \<Rightarrow> args \<Rightarrow> pystr \<Rightarrow> rat \<Rightarrow> pystr \<Rightarrow> (exn + image option \<times> pystr) \<Rightarrow>
   nat \<Rightarrow> state \<Rightarrow> (exn + (exn + image option \<times> pystr)) \<times> state" where
  "page_step E doc A display_name file_start tmp next_future p_idx s =
     (let s1 = page_progress E doc A display_name file_start p_idx s
      in case next_future of
           Inl e \<Rightarrow> (Inl e, s1)
         | Inr unit \<Rightarrow>
             (case prefetch E doc next_future p_idx s1 of
                (fut, s2) \<Rightarrow>
                  (case page_markdown E unit s2 of
                     (Inl e, s3) \<Rightarrow> (Inl e, s3)
                   | (Inr (md, tg), s3) \<Rightarrow> (Inr fut, write_page doc tmp p_idx md tg s3))))"

text \<open>\<open>for p_idx in range(num_pages)\<close>, over the list of the indices.\<close>

fun ocr_pages ::
  "env \<Rightarrow> document \<Rightarrow> args \<Rightarrow> pystr \<Rightarrow> rat \<Rightarrow> pystr \<Rightarrow> (exn + image option \<times> pystr) \<Rightarrow>
   nat list \<Rightarrow> state \<Rightarrow> (exn + unit) \<times> state" where
  "ocr_pages E doc A display_name file_start tmp next_future [] s = (Inr (), s)"
| "ocr_pages E doc A display_name file_start tmp next_future (p_idx # rest) s =
     (case page_step E doc A display_name file_start tmp next_future p_idx s of
        (Inl e, s') \<Rightarrow> (Inl e, s')
      | (Inr fut, s') \<Rightarrow> ocr_pages E doc A display_name file_start tmp fut rest s')"

text \<open>The \<open>try\<close> block of \<open>_ocr_one_file\<close>, lines 244-304.\<close>

definition ocr_one_file_try ::
  "env \<Rightarrow> document \<Rightarrow> args \<Rightarrow> pystr \<Rightarrow> rat \<Rightarrow> pystr \<Rightarrow> pystr \<Rightarrow> state \<Rightarrow> (exn + int) \<times> state" where
  "ocr_one_file_try E doc A display_name file_start md tmp s =
     (let s1 = emit InitForms s
      in case forms doc of
           Some e \<Rightarrow> (Inl e, s1)
         | None \<Rightarrow>
             (let num_pages = length (pages doc);
                  s2 = log (LogFile (a_idx A) (a_pending_len A) (a_done_count A + a_idx A)
                              (a_total A) display_name (int num_pages)) s1;
                  s3 = open_write tmp s2;
                  (next_future, s4) = submit E doc 0 s3
              in case ocr_pages E doc A display_name file_start tmp next_future [0..<num_pages] s4 of
                   (Inl e, s5) \<Rightarrow> (Inl e, s5)
                 | (Inr u, s5) \<Rightarrow>
                     (case rename tmp md (emit Shutdown s5) of
                        (Inl e, s6) \<Rightarrow> (Inl e, s6)
                      | (Inr u', s6) \<Rightarrow> (Inr (int num_pages), free_memory s6))))"

text \<open>
  \<open>_ocr_one_file\<close>, lines 224-311. The output name and the document are obtained
  before the \<open>try\<close>: an exception there leaves the function at once. One raised inside
  the \<open>try\<close> goes through the handler of lines 305-309, and \<open>doc.close()\<close> runs on
  both ways out.
\<close>

definition ocr_one_file :: "env \<Rightarrow> pystr \<Rightarrow> args \<Rightarrow> state \<Rightarrow> (exn + int) \<times> state" where
  "ocr_one_file E pdf A s =
     (case to_output_name E pdf of
        Inl e \<Rightarrow> (Inl e, s)
      | Inr unique_name \<Rightarrow>
          (let display_name = stem (path_name pdf);
               (file_start, s1) = time_time E s;
               md = md_path E unique_name;
               tmp = tmp_path E unique_name;
               s2 = emit (OpenDocument pdf) s1
           in case open_document E pdf of
                Inl e \<Rightarrow> (Inl e, s2)
              | Inr doc \<Rightarrow>
                  (case ocr_one_file_try E doc A display_name file_start md tmp s2 of
                     (Inr n, s3) \<Rightarrow> (Inr n, emit CloseDocument s3)
                   | (Inl e, s3) \<Rightarrow>
                       (Inl e, emit CloseDocument
                                 (unlink_if_exists md (unlink_if_exists tmp s3))))))"

section \<open>The batch orchestrator\<close>

text \<open>The local variables of \<open>_run_ocr\<close> that its loop updates.\<close>

record batch =
  done_count :: int
  errors :: int
  file_times :: "rat list"
  recent_files :: "recent_file list"

text \<open>The loop of lines 321-328, with \<open>done_count\<close> and \<open>pending\<close> as accumulators.\<close>

fun partition_files ::
  "env \<Rightarrow> state \<Rightarrow> pystr list \<Rightarrow> int \<times> pystr list \<Rightarrow> exn + int \<times> pystr list" where
  "partition_files E s [] acc = Inr acc"
| "partition_files E s (pdf # rest) acc =
     (case to_output_name E pdf of
        Inl e \<Rightarrow> Inl e
      | Inr unique_name \<Rightarrow>
          if files s (md_path E unique_name) \<noteq> None
          then partition_files E s rest (fst acc + 1, snd acc)
          else partition_files E s rest (fst acc, snd acc @ [pdf]))"

text \<open>\<open>sum(file_times) / len(file_times) if file_times else 60\<close>.\<close>

definition average_or_60 :: "rat list \<Rightarrow> rat" where
  "average_or_60 ts = (if ts = [] then 60 else sum_list ts / of_nat (length ts))"

text \<open>
  Lines 370-394, after \<open>_ocr_one_file\<close> has returned \<open>num_pages\<close> for the \<open>i\<close>-th
  pending file (\<open>total_files\<close> is the source's \<open>total\<close>): the duration is recorded,
  the file joins \<open>recent_files\<close>, and the status artifact is written.
\<close>

definition record_success ::
  "env \<Rightarrow> int \<Rightarrow> rat \<Rightarrow> int \<Rightarrow> pystr \<Rightarrow> rat \<Rightarrow> int \<Rightarrow> batch \<Rightarrow> state \<Rightarrow> batch \<times> state" where
  "record_success E total_files pipeline_start i pdf t1 num_pages B s2 =
     (let (t2, s3) = time_time E s2;
          elapsed = t2 - t1;
          ft = file_times B @ [elapsed];
          avg' = sum_list ft / of_nat (length ft);
          rf = recent_files B @
                 [\<lparr> name = stem (path_name pdf), pages_done = num_pages,
                    duration = round1 elapsed,
                    per_page = round1 (elapsed / of_int (max num_pages 1)) \<rparr>];
          s4 = log LogFileDone s3;
          (t3, s5) = time_time E s4;
          s6 = save_progress
                 \<lparr> p_done = done_count B + i, p_total = total_files,
                   p_errors = errors B, p_current_file = ascii ''-'',
                   p_current_page = Dash, p_current_pages_total = 0,
                   p_current_file_started = 0,
                   p_elapsed = t3 - pipeline_start, p_avg_per_file = avg',
                   p_recent_files = rf \<rparr> s5
      in (B\<lparr>file_times := ft, recent_files := rf\<rparr>, s6))"

text \<open>The body of the loop of lines 347-398, for the \<open>i\<close>-th pending file.\<close>

definition run_file ::
  "env \<Rightarrow> int \<Rightarrow> int \<Rightarrow> rat \<Rightarrow> int \<Rightarrow> pystr \<Rightarrow> batch \<Rightarrow> state \<Rightarrow> (exn + batch) \<times> state" where
  "run_file E total_files pending_len pipeline_start i pdf B s =
     (case to_output_name E pdf of
        Inl e \<Rightarrow> (Inl e, s)
      | Inr unique_name \<Rightarrow>
          if files s (md_path E unique_name) \<noteq> None
          then (Inr (B\<lparr>done_count := done_count B + 1\<rparr>), s)
          else
            (let (t1, s1) = time_time E s;
                 avg = average_or_60 (file_times B)
             in case ocr_one_file E pdf
                       \<lparr> a_done_count = done_count B, a_idx = i, a_pending_len = pending_len,
                         a_total = total_files, a_errors = errors B, a_avg = avg,
                         a_pipeline_start = pipeline_start,
                         a_recent_files = recent_files B \<rparr> s1 of
                  (Inr num_pages, s2) \<Rightarrow>
                    (case record_success E total_files pipeline_start i pdf t1 num_pages B s2 of
                       (B', s6) \<Rightarrow> (Inr B', s6))
                | (Inl ocr_err, s2) \<Rightarrow>
                    (Inr (B\<lparr>errors := errors B + 1\<rparr>),
                     free_memory (log (LogError (stem (path_name pdf)) ocr_err) s2))))"

text \<open>\<open>for i, pdf in enumerate(pending, 1)\<close>.\<close>

fun run_pending ::
  "env \<Rightarrow> int \<Rightarrow> int \<Rightarrow> rat \<Rightarrow> int \<Rightarrow> pystr list \<Rightarrow> batch \<Rightarrow> state \<Rightarrow> (exn + batch) \<times> state" where
  "run_pending E total_files pending_len pipeline_start i [] B s = (Inr B, s)"
| "run_pending E total_files pending_len pipeline_start i (pdf # rest) B s =
     (case run_file E total_files pending_len pipeline_start i pdf B s of
        (Inl e, s') \<Rightarrow> (Inl e, s')
      | (Inr B', s') \<Rightarrow> run_pending E total_files pending_len pipeline_start (i + 1) rest B' s')"

text \<open>
  \<open>_run_ocr\<close>, lines 314-402, from the two lists of the classification artifact
  (reading that artifact is the caller's; an error there ends the program before
  this function has done anything).
\<close>

definition run_ocr :: "env \<Rightarrow> pystr list \<Rightarrow> pystr list \<Rightarrow> state \<Rightarrow> (exn + unit) \<times> state" where
  "run_ocr E scanned mixed s =
     (let file_list = scanned @ mixed
      in case partition_files E s file_list (0, []) of
           Inl e \<Rightarrow> (Inl e, s)
         | Inr (done0, pending) \<Rightarrow>
             (let total_files = int (length file_list);
                  s1 = log (LogTotals total_files done0 (int (length pending))) s
              in if pending = [] then
                   (Inr (),
                    save_progress
                      \<lparr> p_done = total_files, p_total = total_files, p_errors = 0,
                        p_current_file = ascii ''-'', p_current_page = Dash,
                        p_current_pages_total = 0, p_current_file_started = 0,
                        p_elapsed = 0, p_avg_per_file = 0, p_recent_files = [] \<rparr>
                      (log LogNothing s1))
                 else
                   (let s2 = s1\<lparr>chandra := \<lparr> model = None, processor = None,
                                              formatted_prompt = [], loaded = False \<rparr>,
                                  counts := \<lparr> c_tess = 0, c_vlm = 0, c_txt = 0 \<rparr>\<rparr>;
                        s3 = log LogHybrid s2;
                        (pipeline_start, s4) = time_time E s3
                    in case run_pending E total_files (int (length pending)) pipeline_start 1 pending
                              \<lparr> done_count = done0, errors = 0, file_times = [],
                                recent_files = [] \<rparr> s4 of
                         (Inl e, s5) \<Rightarrow> (Inl e, s5)
                       | (Inr B, s5) \<Rightarrow>
                           (let (t_end, s6) = time_time E s5
                            in (Inr (),
                                log (LogStats (c_tess (counts s6)) (c_vlm (counts s6))
                                       (c_txt (counts s6)))
                                  (log (LogComplete (done_count B + int (length pending))
                                          (errors B)) s6))))))"

section \<open>Observations and a worked example\<close>

text \<open>The events a step added to the trace.\<close>

definition new_events :: "state \<Rightarrow> state \<Rightarrow> event list" where
  "new_events s s' = drop (length (trace s)) (trace s')"

text \<open>
  A concrete environment, on which the theorems below are run: two files under the data
  root \<open>/data\<close>, one of three pages (embedded text with 200 letters; an image whose
  fast OCR has 80 letters, 20 of them with diacritics; an image whose fast OCR has 80
  letters, 5 of them with diacritics), one without pages and one whose second page
  does not render; any other path does not open. \<open>stale_state\<close> has a temporary
  file left behind for \<open>/data/bad.pdf\<close>.
\<close>

definition demo_isalpha :: "pychar \<Rightarrow> bool" where
  "demo_isalpha c = (65 \<le> c \<and> c \<le> 90 \<or> 97 \<le> c \<and> c \<le> 122 \<or> c \<in> set DIACRITICS)"

definition demo_isspace :: "pychar \<Rightarrow> bool" where
  "demo_isspace c = (c = 32 \<or> 9 \<le> c \<and> c \<le> 13)"

definition demo_document :: document where
  "demo_document =
     \<lparr> forms = None,
       pages = [\<lparr> text_layer = Inr (replicate 200 97), raster = Inr 0 \<rparr>,
                \<lparr> text_layer = Inr [], raster = Inr 1 \<rparr>,
                \<lparr> text_layer = Inr (ascii ''  p. 3 ''), raster = Inr 2 \<rparr>] \<rparr>"

definition torn_document :: document where
  "torn_document =
     \<lparr> forms = None,
       pages = [\<lparr> text_layer = Inr (replicate 200 97), raster = Inr 0 \<rparr>,
                \<lparr> text_layer = Inr [], raster = Inl (Raised ''render failed'') \<rparr>] \<rparr>"

definition demo_env :: env where
  "demo_env =
     \<lparr> isalpha = demo_isalpha, isspace = demo_isspace, resolve = path_parts,
       DATA_DIR = [ascii ''data''], OUTPUT_BASE = ascii ''out'',
       open_document = (\<lambda>p. if p = ascii ''/data/a/scan.pdf'' then Inr demo_document
                              else if p = ascii ''/data/empty.pdf'' then Inr \<lparr> forms = None, pages = [] \<rparr>
                              else if p = ascii ''/data/torn.pdf'' then Inr torn_document
                              else Inl (Raised ''Failed to load document'')),
       image_to_string = (\<lambda>img. if img = 1 then Inr (replicate 60 97 @ replicate 20 224)
                                  else if img = 2 then Inr (replicate 75 97 @ replicate 5 224)
                                  else Inl (Raised ''no such image'')),
       mlx_load = Inr (7, 8),
       mlx_chat_template = (\<lambda>pr. Inr (ascii ''prompt'')),
       mlx_generate = (\<lambda>m pr fp img. Inr (ascii ''vlm text'')),
       clock = of_nat \<rparr>"

definition state0 :: state where
  "state0 = \<lparr> files = Map.empty, status_file = None, trace = [],
              chandra = \<lparr> model = None, processor = None, formatted_prompt = [], loaded = False \<rparr>,
              counts = \<lparr> c_tess = 0, c_vlm = 0, c_txt = 0 \<rparr>, ticks = 0 \<rparr>"

definition demo_args :: args where
  "demo_args = \<lparr> a_done_count = 0, a_idx = 1, a_pending_len = 1, a_total = 1, a_errors = 0,
                 a_avg = 60, a_pipeline_start = 0, a_recent_files = [] \<rparr>"

definition demo_pdf :: pystr where
  "demo_pdf = ascii ''/data/a/scan.pdf''"



section \<open>What a file's processing may do\<close>

text \<open>
  A page is rendered when its text layer was read and has fewer than
  \<open>NATIVE_TEXT_THRESHOLD\<close> letters. \<open>page_event\<close> says which events belong to the
  page loop of a file with document \<open>doc\<close> and temporary path \<open>tmp\<close>: pages are
  read and rendered inside the document, only pages short of text are rendered, the
  engines see only images of such pages, the fallback only after the gate has failed
  on the image, and text is written to \<open>tmp\<close> only. \<open>file_event\<close> adds what the rest
  of the \<open>try\<close> block does, with final path \<open>md\<close>, and \<open>in_file_event\<close> what a whole
  call of \<open>_ocr_one_file\<close> does around it.
  \<open>adds P s s'\<close>: the trace of \<open>s'\<close> is the trace of \<open>s\<close> followed by events that
  satisfy \<open>P\<close>.
\<close>

definition page_rendered :: "env \<Rightarrow> page \<Rightarrow> bool" where
  "page_rendered E pg =
     (case text_layer pg of
        Inl e \<Rightarrow> False
      | Inr text \<Rightarrow> alpha_count (isalpha E) text < NATIVE_TEXT_THRESHOLD)"

definition image_of_rendered :: "env \<Rightarrow> document \<Rightarrow> image \<Rightarrow> bool" where
  "image_of_rendered E doc img =
     list_ex (\<lambda>pg. page_rendered E pg \<and> raster pg = Inr img) (pages doc)"

definition gate_failed :: "env \<Rightarrow> image \<Rightarrow> bool" where
  "gate_failed E img =
     (case image_to_string E img of
        Inl e \<Rightarrow> False
      | Inr t \<Rightarrow> \<not> tesseract_quality_ok (isalpha E) t)"

fun page_event :: "env \<Rightarrow> document \<Rightarrow> pystr \<Rightarrow> event \<Rightarrow> bool" where
  "page_event E doc tmp (GetText i) = (i < length (pages doc))"
| "page_event E doc tmp (RenderPage i) =
     (i < length (pages doc) \<and> page_rendered E (pages doc ! i))"
| "page_event E doc tmp (TesseractOcr img) = image_of_rendered E doc img"
| "page_event E doc tmp (ChandraOcr m pr fp img) =
     (image_of_rendered E doc img \<and> gate_failed E img)"
| "page_event E doc tmp (WriteText p d) = (p = tmp)"
| "page_event E doc tmp (Submit i) = True"
| "page_event E doc tmp MlxLoad = True"
| "page_event E doc tmp (Log l) = True"
| "page_event E doc tmp (SaveProgress snap) = True"
| "page_event E doc tmp FreeMemory = True"
| "page_event E doc tmp ev = False"

fun file_event :: "env \<Rightarrow> document \<Rightarrow> pystr \<Rightarrow> pystr \<Rightarrow> event \<Rightarrow> bool" where
  "file_event E doc md tmp InitForms = True"
| "file_event E doc md tmp (OpenWrite p) = (p = tmp)"
| "file_event E doc md tmp Shutdown = True"
| "file_event E doc md tmp (Rename a b) = (a = tmp \<and> b = md)"
| "file_event E doc md tmp ev = page_event E doc tmp ev"

definition adds :: "(event \<Rightarrow> bool) \<Rightarrow> state \<Rightarrow> state \<Rightarrow> bool" where
  "adds P s s' = (take (length (trace s)) (trace s') = trace s \<and> list_all P (new_events s s'))"

definition future_ok :: "env \<Rightarrow> document \<Rightarrow> (exn + image option \<times> pystr) \<Rightarrow> bool" where
  "future_ok E doc fut =
     (case fut of Inr (Some img, t) \<Rightarrow> image_of_rendered E doc img | _ \<Rightarrow> True)"

fun in_file_event :: "env \<Rightarrow> pystr \<Rightarrow> event \<Rightarrow> bool" where
  "in_file_event E pdf (OpenDocument p) = (p = pdf)"
| "in_file_event E pdf CloseDocument = True"
| "in_file_event E pdf ev =
     (case (to_output_name E pdf, open_document E pdf) of
        (Inr unique_name, Inr doc) \<Rightarrow>
           (case ev of
              Unlink p \<Rightarrow> p = tmp_path E unique_name \<or> p = md_path E unique_name
            | _ \<Rightarrow> file_event E doc (md_path E unique_name) (tmp_path E unique_name) ev)
      | _ \<Rightarrow> False)"

section \<open>Paths below the data root\<close>




section \<open>The text of a page and of a file, as values\<close>

text \<open>
  What extraction, engine selection and the page loop compute, without the state:
  \<open>page_unit\<close> is what \<open>_render_page\<close> returns, \<open>selected_text\<close> what lines 274-289
  make of it when the model state is as \<open>_load_chandra\<close> leaves it
  (\<open>chandra_consistent\<close>), \<open>page_text\<close> both in a row. \<open>collect_texts\<close> is the list
  of the page texts, or the first exception in page order; \<open>written\<close> is what has been
  written to the temporary file when the loop ends, \<open>loop_outcome\<close> and
  \<open>file_outcome\<close> how the loop and the \<open>try\<close> block end. \<open>join_blank\<close> joins with
  a blank line.
\<close>

definition page_unit :: "env \<Rightarrow> document \<Rightarrow> nat \<Rightarrow> exn + image option \<times> pystr" where
  "page_unit E doc page_idx =
     (if length (pages doc) \<le> page_idx then Inl (Raised ''Failed to load page.'')
      else case text_layer (pages doc ! page_idx) of
             Inl e \<Rightarrow> Inl e
           | Inr text \<Rightarrow>
               if NATIVE_TEXT_THRESHOLD \<le> alpha_count (isalpha E) text
               then Inr (None, strip (isspace E) text)
               else (case raster (pages doc ! page_idx) of
                       Inl e \<Rightarrow> Inl e
                     | Inr img \<Rightarrow> Inr (Some img, [])))"

definition fallback_text :: "env \<Rightarrow> image \<Rightarrow> exn + pystr" where
  "fallback_text E img =
     (case mlx_load E of
        Inl e \<Rightarrow> Inl e
      | Inr (m, pr) \<Rightarrow>
          (case mlx_chat_template E pr of
             Inl e \<Rightarrow> Inl e
           | Inr fp \<Rightarrow> mlx_generate E (Some m) (Some pr) fp img))"

definition selected_text :: "env \<Rightarrow> image option \<times> pystr \<Rightarrow> exn + pystr \<times> tag" where
  "selected_text E unit =
     (case fst unit of
        None \<Rightarrow> Inr (snd unit, Txt)
      | Some img \<Rightarrow>
          (case image_to_string E img of
             Inl e \<Rightarrow> Inl e
           | Inr t \<Rightarrow>
               if tesseract_quality_ok (isalpha E) t then Inr (t, Tess)
               else (case fallback_text E img of
                       Inl e \<Rightarrow> Inl e
                     | Inr md \<Rightarrow> Inr (md, Vlm))))"

definition page_text :: "env \<Rightarrow> document \<Rightarrow> nat \<Rightarrow> exn + pystr \<times> tag" where
  "page_text E doc page_idx =
     (case page_unit E doc page_idx of
        Inl e \<Rightarrow> Inl e
      | Inr unit \<Rightarrow> selected_text E unit)"

fun collect_texts :: "env \<Rightarrow> document \<Rightarrow> nat list \<Rightarrow> exn + pystr list" where
  "collect_texts E doc [] = Inr []"
| "collect_texts E doc (k # ks) =
     (case page_text E doc k of
        Inl e \<Rightarrow> Inl e
      | Inr mt \<Rightarrow>
          (case collect_texts E doc ks of
             Inl e \<Rightarrow> Inl e
           | Inr mds \<Rightarrow> Inr (fst mt # mds)))"

fun join_blank :: "pystr list \<Rightarrow> pystr" where
  "join_blank [] = []"
| "join_blank [m] = m"
| "join_blank (m # m' # ms) = m @ ascii [CHR 0x0A, CHR 0x0A] @ join_blank (m' # ms)"

definition chandra_consistent :: "env \<Rightarrow> chandra_state \<Rightarrow> bool" where
  "chandra_consistent E c =
     (if loaded c
      then (case mlx_load E of
              Inl e \<Rightarrow> False
            | Inr (m, pr) \<Rightarrow>
                (case mlx_chat_template E pr of
                   Inl e \<Rightarrow> False
                 | Inr fp \<Rightarrow> model c = Some m \<and> processor c = Some pr
                              \<and> formatted_prompt c = fp))
      else True)"

fun written :: "env \<Rightarrow> document \<Rightarrow> nat list \<Rightarrow> pystr" where
  "written E doc [] = []"
| "written E doc (k # ks) =
     (case page_text E doc k of
        Inl e \<Rightarrow> []
      | Inr mt \<Rightarrow> (if 0 < k then ascii [CHR 0x0A, CHR 0x0A] else []) @ fst mt @ written E doc ks)"

definition loop_outcome :: "env \<Rightarrow> document \<Rightarrow> nat list \<Rightarrow> exn + unit" where
  "loop_outcome E doc ks = (case collect_texts E doc ks of Inl e \<Rightarrow> Inl e | Inr mds \<Rightarrow> Inr ())"

definition file_outcome :: "env \<Rightarrow> document \<Rightarrow> exn + unit" where
  "file_outcome E doc =
     (case forms doc of
        Some e \<Rightarrow> Inl e
      | None \<Rightarrow> loop_outcome E doc [0..<length (pages doc)])"

text \<open>
  Modelled from the claim's words (C5): fully sequential per-page processing. Each page
  is extracted, recognised and written before the next one is touched; there is no
  future and no worker.
\<close>

definition page_step_sequential ::
  "env \<Rightarrow> document \<Rightarrow> args \<Rightarrow> pystr \<Rightarrow> rat \<Rightarrow> pystr \<Rightarrow> nat \<Rightarrow> state \<Rightarrow> (exn + unit) \<times> state" where
  "page_step_sequential E doc A display_name file_start tmp p_idx s =
     (let s1 = page_progress E doc A display_name file_start p_idx s
      in case render_page E doc p_idx s1 of
           (Inl e, s2) \<Rightarrow> (Inl e, s2)
         | (Inr unit, s2) \<Rightarrow>
             (case page_markdown E unit s2 of
                (Inl e, s3) \<Rightarrow> (Inl e, s3)
              | (Inr (md, tg), s3) \<Rightarrow> (Inr (), write_page doc tmp p_idx md tg s3)))"

fun ocr_pages_sequential ::
  "env \<Rightarrow> document \<Rightarrow> args \<Rightarrow> pystr \<Rightarrow> rat \<Rightarrow> pystr \<Rightarrow> nat list \<Rightarrow> state \<Rightarrow> (exn + unit) \<times> state" where
  "ocr_pages_sequential E doc A display_name file_start tmp [] s = (Inr (), s)"
| "ocr_pages_sequential E doc A display_name file_start tmp (p_idx # rest) s =
     (case page_step_sequential E doc A display_name file_start tmp p_idx s of
        (Inl e, s') \<Rightarrow> (Inl e, s')
      | (Inr u, s') \<Rightarrow> ocr_pages_sequential E doc A display_name file_start tmp rest s')"


section \<open>Reading a trace with a monitor\<close>

text \<open>
  A monitor is a state machine over events: it moves on each event of a trace, and
  answers \<open>None\<close> as soon as one event is not allowed in the state it has reached.
  \<open>follows step q s s' q'\<close>: the trace of \<open>s'\<close> extends that of \<open>s\<close>, and the
  monitor, started in \<open>q\<close>, accepts the added events and ends in \<open>q'\<close>.
\<close>

fun run_monitor :: "('q \<Rightarrow> event \<Rightarrow> 'q option) \<Rightarrow> 'q \<Rightarrow> event list \<Rightarrow> 'q option" where
  "run_monitor step q [] = Some q"
| "run_monitor step q (e # es) =
     (case step q e of None \<Rightarrow> None | Some q' \<Rightarrow> run_monitor step q' es)"

definition follows ::
  "('q \<Rightarrow> event \<Rightarrow> 'q option) \<Rightarrow> 'q \<Rightarrow> state \<Rightarrow> state \<Rightarrow> 'q \<Rightarrow> bool" where
  "follows step q s s' q' =
     (take (length (trace s)) (trace s') = trace s \<and>
      run_monitor step q (new_events s s') = Some q')"

text \<open>
  The handles and the prompt a fallback call receives are those the load produced.
\<close>

definition uses_loaded_state ::
  "env \<Rightarrow> handle option \<Rightarrow> handle option \<Rightarrow> pystr \<Rightarrow> bool" where
  "uses_loaded_state E m pr fp =
     (case mlx_load E of
        Inl e \<Rightarrow> False
      | Inr (m0, pr0) \<Rightarrow>
          (case mlx_chat_template E pr0 of
             Inl e \<Rightarrow> False
           | Inr fp0 \<Rightarrow> m = Some m0 \<and> pr = Some pr0 \<and> fp = fp0))"

text \<open>The load goes through: neither \<open>load\<close> nor \<open>apply_chat_template\<close> raises.\<close>

definition load_succeeds :: "env \<Rightarrow> bool" where
  "load_succeeds E =
     (case mlx_load E of
        Inl e \<Rightarrow> False
      | Inr (m, pr) \<Rightarrow> (case mlx_chat_template E pr of Inl e \<Rightarrow> False | Inr fp \<Rightarrow> True))"

text \<open>
  The loader monitor. It counts the pages whose fast-engine text failed the gate, the
  loads started and the loads completed, and it refuses: a load started while the model
  is loaded, or without a gate failure that no earlier load answered, or, when the load
  goes through, after another gate failure than the first; a second completed load; a fallback call before a load has completed, or with other handles or another
  prompt than the load produced.
\<close>

record loader =
  l_loaded :: bool
  l_failures :: nat
  l_starts :: nat
  l_completions :: nat

fun loader_step :: "env \<Rightarrow> loader \<Rightarrow> event \<Rightarrow> loader option" where
  "loader_step E q (TesseractOcr img) =
     Some (if gate_failed E img then q\<lparr>l_failures := l_failures q + 1\<rparr> else q)"
| "loader_step E q MlxLoad =
     (if l_loaded q \<or> l_failures q \<le> l_starts q \<or> (load_succeeds E \<and> l_failures q \<noteq> 1)
      then None
      else Some (q\<lparr>l_starts := l_starts q + 1\<rparr>))"
| "loader_step E q (Log LogLoaded) =
     (if l_loaded q then None
      else Some (q\<lparr>l_loaded := True, l_completions := l_completions q + 1\<rparr>))"
| "loader_step E q (ChandraOcr m pr fp img) =
     (if l_loaded q \<and> uses_loaded_state E m pr fp then Some q else None)"
| "loader_step E q ev = Some q"

text \<open>
  The tally monitor. It counts the files completed and the errors logged, lists the
  documents opened, and refuses a progress snapshot whose history has not exactly
  \<open>min 10 k\<close> entries, \<open>k\<close> the number of files completed so far.
\<close>

record tally =
  t_completed :: nat
  t_errors :: nat
  t_opened :: "pystr list"

fun tally_step :: "tally \<Rightarrow> event \<Rightarrow> tally option" where
  "tally_step q (SaveProgress snap) =
     (if length (j_recent_files snap) = min 10 (t_completed q) then Some q else None)"
| "tally_step q (Log LogFileDone) = Some (q\<lparr>t_completed := t_completed q + 1\<rparr>)"
| "tally_step q (Log (LogError n e)) = Some (q\<lparr>t_errors := t_errors q + 1\<rparr>)"
| "tally_step q (OpenDocument p) = Some (q\<lparr>t_opened := t_opened q @ [p]\<rparr>)"
| "tally_step q ev = Some q"

text \<open>What a monitor does not look at: the events of an extraction, and of writing.\<close>

definition blind_to_extraction :: "('q \<Rightarrow> event \<Rightarrow> 'q option) \<Rightarrow> bool" where
  "blind_to_extraction step =
     (\<forall>q i. step q (Submit i) = Some q \<and> step q (GetText i) = Some q
          \<and> step q (RenderPage i) = Some q)"

definition blind_to_writing :: "('q \<Rightarrow> event \<Rightarrow> 'q option) \<Rightarrow> bool" where
  "blind_to_writing step =
     (\<forall>q. (\<forall>p d. step q (WriteText p d) = Some q)
        \<and> (\<forall>a b c d. step q (Log (LogPage a b c d)) = Some q)
        \<and> (\<forall>a b c d e f. step q (Log (LogFile a b c d e f)) = Some q)
        \<and> (\<forall>p. step q (OpenWrite p) = Some q)
        \<and> (\<forall>a b. step q (Rename a b) = Some q)
        \<and> (\<forall>p. step q (Unlink p) = Some q)
        \<and> step q FreeMemory = Some q \<and> step q InitForms = Some q
        \<and> step q Shutdown = Some q \<and> step q CloseDocument = Some q)"

text \<open>What the loader monitor's state says about the model state of the program.\<close>

definition loader_inv :: "env \<Rightarrow> loader \<Rightarrow> chandra_state \<Rightarrow> bool" where
  "loader_inv E q c =
     (l_loaded q = loaded c \<and> chandra_consistent E c \<and> l_starts q \<le> l_failures q
      \<and> l_completions q = (if l_loaded q then 1 else 0)
      \<and> (if load_succeeds E then l_starts q = l_completions q \<and> (l_failures q = 0 \<or> l_loaded q)
          else True))"

definition tracks :: "env \<Rightarrow> loader \<Rightarrow> state \<Rightarrow> loader \<Rightarrow> state \<Rightarrow> bool" where
  "tracks E q0 s0 q s = (follows (loader_step E) q0 s0 s q \<and> loader_inv E q (chandra s))"

text \<open>The output name of a file can be derived; its output artifact exists.\<close>

definition name_ok :: "env \<Rightarrow> pystr \<Rightarrow> bool" where
  "name_ok E pdf = (case to_output_name E pdf of Inl e \<Rightarrow> False | Inr n \<Rightarrow> True)"

definition artifact_exists :: "env \<Rightarrow> state \<Rightarrow> pystr \<Rightarrow> bool" where
  "artifact_exists E s pdf =
     (case to_output_name E pdf of
        Inl e \<Rightarrow> False
      | Inr n \<Rightarrow> files s (md_path E n) \<noteq> None)"

text \<open>What the tally monitor's state says about the counters of the batch.\<close>

definition tally_inv :: "int \<Rightarrow> tally \<Rightarrow> batch \<Rightarrow> bool" where
  "tally_inv e0 q B =
     (t_completed q = length (recent_files B) \<and> errors B = e0 + int (t_errors q))"


section \<open>Counting in a trace\<close>

text \<open>
  The documents opened, in order; the errors logged by the batch loop; the files
  completed; the loads started and completed; the fast-engine calls whose text failed
  the gate.
\<close>

fun opened_files :: "event list \<Rightarrow> pystr list" where
  "opened_files [] = []"
| "opened_files (OpenDocument p # es) = p # opened_files es"
| "opened_files (e # es) = opened_files es"

fun is_error_log :: "event \<Rightarrow> bool" where
  "is_error_log (Log (LogError n e)) = True"
| "is_error_log e = False"

definition error_count :: "event list \<Rightarrow> nat" where
  "error_count evs = length (filter is_error_log evs)"

definition completed_count :: "event list \<Rightarrow> nat" where
  "completed_count evs = length (filter (\<lambda>e. e = Log LogFileDone) evs)"

definition load_count :: "event list \<Rightarrow> nat" where
  "load_count evs = length (filter (\<lambda>e. e = MlxLoad) evs)"

definition loaded_count :: "event list \<Rightarrow> nat" where
  "loaded_count evs = length (filter (\<lambda>e. e = Log LogLoaded) evs)"

fun is_gate_failure :: "env \<Rightarrow> event \<Rightarrow> bool" where
  "is_gate_failure E (TesseractOcr img) = gate_failed E img"
| "is_gate_failure E e = False"

definition gate_failure_count :: "env \<Rightarrow> event list \<Rightarrow> nat" where
  "gate_failure_count E evs = length (filter (is_gate_failure E) evs)"

text \<open>The monitors at the start of a run.\<close>

definition tally0 :: tally where
  "tally0 = \<lparr> t_completed = 0, t_errors = 0, t_opened = [] \<rparr>"

definition loader0 :: loader where
  "loader0 = \<lparr> l_loaded = False, l_failures = 0, l_starts = 0, l_completions = 0 \<rparr>"

text \<open>
  Fragments of \<open>_run_ocr\<close>, named: the model state of line 338, the state in which the
  loop of line 347 starts (lines 331 and 338-340), and lines 400-402 after it.
\<close>

definition fresh_chandra :: chandra_state where
  "fresh_chandra = \<lparr> model = None, processor = None, formatted_prompt = [], loaded = False \<rparr>"

definition loop_start :: "env \<Rightarrow> int \<Rightarrow> int \<Rightarrow> int \<Rightarrow> state \<Rightarrow> state" where
  "loop_start E total_files done0 pending_len s =
     log LogHybrid
       ((log (LogTotals total_files done0 pending_len) s)
          \<lparr>chandra := fresh_chandra, counts := \<lparr> c_tess = 0, c_vlm = 0, c_txt = 0 \<rparr>\<rparr>)"

definition finish :: "env \<Rightarrow> int \<Rightarrow> batch \<Rightarrow> state \<Rightarrow> state" where
  "finish E pending_len B s5 =
     (let s6 = snd (time_time E s5)
      in log (LogStats (c_tess (counts s6)) (c_vlm (counts s6)) (c_txt (counts s6)))
           (log (LogComplete (done_count B + pending_len) (errors B)) s6))"
section \<open>The quality gate\<close>

lemma round_half_even_ge_floor: "\<lfloor>q\<rfloor> \<le> round_half_even q"
  by (simp add: round_half_even_def Let_def)

lemma round_half_even_le: "of_int (round_half_even q) \<le> q + 1 / 2"
proof -
  define f where "f = \<lfloor>q\<rfloor>"
  have fl: "of_int f \<le> q" unfolding f_def by (rule of_int_floor_le)
  show ?thesis
  proof (cases "q - of_int f < 1 / 2")
    case True
    then have "round_half_even q = f"
      by (simp add: round_half_even_def Let_def f_def)
    with fl show ?thesis by linarith
  next
    case False
    then have "round_half_even q \<le> f + 1"
      by (simp add: round_half_even_def Let_def f_def)
    then have "(of_int (round_half_even q) :: rat) \<le> of_int (f + 1)"
      by (simp only: of_int_le_iff)
    then have "(of_int (round_half_even q) :: rat) \<le> of_int f + 1" by simp
    with False show ?thesis by linarith
  qed
qed

lemma MIN_DIACRITICS_RATIO_value: "MIN_DIACRITICS_RATIO = 5404319552844595 / 2 ^ 55"
proof -
  have "\<lfloor>(15 / 100 * 2 ^ 55 :: rat)\<rfloor> = 5404319552844595"
    by (simp add: floor_eq_iff)
  then show ?thesis
    by (simp add: MIN_DIACRITICS_RATIO_def round_half_even_def Let_def)
qed

lemma truediv_ge_exact:
  assumes a: "0 < a" and small: "a < 2 ^ 51"
  shows "MIN_DIACRITICS_RATIO \<le> py_truediv d a \<longleftrightarrow> (15 / 100 :: rat) \<le> of_nat d / of_nat a"
proof -
  let ?q = "of_nat d / of_nat a :: rat"
  have apos: "(0::rat) < of_nat a" using a by simp
  have M: "MIN_DIACRITICS_RATIO = 5404319552844595 / 2 ^ 55" by (rule MIN_DIACRITICS_RATIO_value)
  have Mlt: "MIN_DIACRITICS_RATIO < 15 / 100" "1 / 8 < MIN_DIACRITICS_RATIO" "MIN_DIACRITICS_RATIO < 1 / 4"
    by (simp_all add: M)
  show ?thesis
  proof (cases "1 / 4 \<le> ?q \<or> ?q < 1 / 8")
    case True
    then have "py_truediv d a = ?q" by (simp add: py_truediv_def Let_def)
    show ?thesis
    proof (cases "1 / 4 \<le> ?q")
      case True
      with Mlt \<open>py_truediv d a = ?q\<close> show ?thesis by linarith
    next
      case False
      with True have "?q < 1 / 8" by simp
      with Mlt \<open>py_truediv d a = ?q\<close> show ?thesis by linarith
    qed
  next
    case False
    then have pt: "py_truediv d a = of_int (round_half_even (?q * 2 ^ 55)) / 2 ^ 55"
      by (simp add: py_truediv_def Let_def)
    have iff: "MIN_DIACRITICS_RATIO \<le> py_truediv d a \<longleftrightarrow> 5404319552844595 \<le> round_half_even (?q * 2 ^ 55)"
      unfolding pt M by (simp add: divide_le_cancel)
    show ?thesis
    proof (cases "(15 / 100 :: rat) \<le> ?q")
      case True
      then have "(5404319552844595 :: rat) \<le> ?q * 2 ^ 55" by simp
      then have "5404319552844595 \<le> \<lfloor>?q * 2 ^ 55\<rfloor>" by (simp add: le_floor_iff)
      with round_half_even_ge_floor [of "?q * 2 ^ 55"] True iff show ?thesis by linarith
    next
      case lt: False
      then have "of_nat d * 100 < (15 :: rat) * of_nat a"
        using apos by (simp add: field_simps)
      then have "d * 100 < 15 * a" by (metis (mono_tags) of_nat_less_iff of_nat_mult of_nat_numeral)
      then have "d * 20 + 1 \<le> 3 * a" by arith
      then have "(of_nat d :: rat) * 20 + 1 \<le> 3 * of_nat a"
        by (metis (mono_tags) of_nat_le_iff of_nat_mult of_nat_numeral of_nat_add of_nat_1)
      then have q: "?q \<le> 3 / 20 - 1 / (20 * of_nat a)"
        using apos by (simp add: field_simps)
      have "(of_nat a :: rat) < 2 ^ 51" using small
        by (metis (mono_tags) of_nat_less_iff of_nat_numeral of_nat_power)
      then have "(2 ^ 55 :: rat) / (20 * of_nat a) > 16 / 20"
        using apos by (simp add: field_simps)
      then have gap: "(16 / 20 :: rat) < 2 ^ 55 * (1 / (20 * of_nat a))" by simp
      have "?q * 2 ^ 55 \<le> (3 / 20 - 1 / (20 * of_nat a)) * 2 ^ 55"
        using q by (rule mult_right_mono) simp
      also have "\<dots> = 3 / 20 * 2 ^ 55 - 2 ^ 55 * (1 / (20 * of_nat a))"
        by (simp only: left_diff_distrib) (simp only: mult.commute)
      also have "(3 / 20 * 2 ^ 55 :: rat) = 5404319552844595 + 1 / 5" by simp
      finally have "?q * 2 ^ 55 < 5404319552844595 - 1 / 2"
        using gap by linarith
      with round_half_even_le [of "?q * 2 ^ 55"] have "round_half_even (?q * 2 ^ 55) < 5404319552844595"
        by linarith
      with lt iff show ?thesis by simp
    qed
  qed
qed

lemma trace_emit [simp]: "trace (emit e s) = trace s @ [e]"
  by (simp add: emit_def)

lemma new_events_emit: "new_events s s' = evs \<Longrightarrow> length (trace s) \<le> length (trace s') \<Longrightarrow> new_events s (emit e s') = evs @ [e]"
  by (simp add: new_events_def)

lemma load_chandra_trace: "\<exists>evs. trace (snd (load_chandra E s)) = trace s @ evs"
  by (simp add: load_chandra_def log_def emit_def Let_def split: sum.splits prod.splits)

lemma demo_alpha_97: "demo_isalpha 97" by (simp add: demo_isalpha_def)
lemma demo_alpha_224: "demo_isalpha 224" by (simp add: demo_isalpha_def DIACRITICS_def)
lemma diacritic_224: "224 \<in> set DIACRITICS" by (simp add: DIACRITICS_def)
lemma diacritic_97: "97 \<notin> set DIACRITICS" by (simp add: DIACRITICS_def)

lemma demo_counts:
  "alpha_count demo_isalpha (replicate m 97 @ replicate n 224) = m + n"
  "diacritics_count (replicate m 97 @ replicate n 224) = n"
  by (simp_all add: alpha_count_def diacritics_count_def demo_alpha_97 demo_alpha_224 diacritic_224 diacritic_97)


text \<open>
  C1. For a rendered page the fast engine runs first, and its text \<open>t\<close> is accepted
  exactly when it has at least 50 alphabetic characters and the diacritic characters are
  at least 15/100 of them. When it is accepted it is the page's text, tagged
  \<open>Tess\<close>, and nothing else runs. When it is not, the model is loaded if need be and
  the fallback engine is called on the same image; what it returns is the page's text,
  tagged \<open>Vlm\<close>, with no check on it, and what it raises is raised. The bound on the
  number of letters keeps the rounding of the binary64 quotient away from the threshold.
\<close>

theorem quality_gate_selects_engine:
  assumes tess: "image_to_string E img = Inr t"
      and small: "alpha_count (isalpha E) t < 2 ^ 51"
  shows "(tesseract_quality_ok (isalpha E) t \<longleftrightarrow>
            50 \<le> alpha_count (isalpha E) t \<and>
            (15 / 100 :: rat) \<le> of_nat (diacritics_count t) / of_nat (alpha_count (isalpha E) t))
       \<and> (\<exists>evs. new_events s (snd (page_markdown E (Some img, native_text) s)) = TesseractOcr img # evs)
       \<and> (tesseract_quality_ok (isalpha E) t \<longrightarrow>
            fst (page_markdown E (Some img, native_text) s) = Inr (t, Tess) \<and>
            new_events s (snd (page_markdown E (Some img, native_text) s)) = [TesseractOcr img])
       \<and> (\<not> tesseract_quality_ok (isalpha E) t \<longrightarrow>
            (case load_chandra E (emit (TesseractOcr img) s) of
               (Inl e, s2) \<Rightarrow> page_markdown E (Some img, native_text) s = (Inl e, s2)
             | (Inr u, s2) \<Rightarrow>
                 (case mlx_generate E (model (chandra s2)) (processor (chandra s2))
                         (formatted_prompt (chandra s2)) img of
                    Inl e \<Rightarrow> fst (page_markdown E (Some img, native_text) s) = Inl e
                  | Inr md \<Rightarrow> fst (page_markdown E (Some img, native_text) s) = Inr (md, Vlm)) \<and>
                 new_events s2 (snd (page_markdown E (Some img, native_text) s)) =
                   [ChandraOcr (model (chandra s2)) (processor (chandra s2))
                      (formatted_prompt (chandra s2)) img]))"
proof (intro conjI)
  show "tesseract_quality_ok (isalpha E) t \<longleftrightarrow>
            50 \<le> alpha_count (isalpha E) t \<and>
            (15 / 100 :: rat) \<le> of_nat (diacritics_count t) / of_nat (alpha_count (isalpha E) t)"
  proof (cases "alpha_count (isalpha E) t < 50")
    case True
    then show ?thesis by (simp add: tesseract_quality_ok_def MIN_CHARS_FOR_PAGE_def)
  next
    case False
    then have "0 < alpha_count (isalpha E) t" by simp
    from truediv_ge_exact [OF this small] False show ?thesis
      by (simp add: tesseract_quality_ok_def MIN_CHARS_FOR_PAGE_def)
  qed
next
  obtain evs where "trace (snd (load_chandra E (emit (TesseractOcr img) s))) = trace (emit (TesseractOcr img) s) @ evs"
    using load_chandra_trace by blast
  then show "\<exists>evs. new_events s (snd (page_markdown E (Some img, native_text) s)) = TesseractOcr img # evs"
    using tess
    by (auto simp: page_markdown_def tesseract_ocr_def chandra_ocr_def new_events_def
         split: sum.splits prod.splits)
next
  show "tesseract_quality_ok (isalpha E) t \<longrightarrow>
            fst (page_markdown E (Some img, native_text) s) = Inr (t, Tess) \<and>
            new_events s (snd (page_markdown E (Some img, native_text) s)) = [TesseractOcr img]"
    using tess by (simp add: page_markdown_def tesseract_ocr_def new_events_def)
next
  show "\<not> tesseract_quality_ok (isalpha E) t \<longrightarrow>
            (case load_chandra E (emit (TesseractOcr img) s) of
               (Inl e, s2) \<Rightarrow> page_markdown E (Some img, native_text) s = (Inl e, s2)
             | (Inr u, s2) \<Rightarrow>
                 (case mlx_generate E (model (chandra s2)) (processor (chandra s2))
                         (formatted_prompt (chandra s2)) img of
                    Inl e \<Rightarrow> fst (page_markdown E (Some img, native_text) s) = Inl e
                  | Inr md \<Rightarrow> fst (page_markdown E (Some img, native_text) s) = Inr (md, Vlm)) \<and>
                 new_events s2 (snd (page_markdown E (Some img, native_text) s)) =
                   [ChandraOcr (model (chandra s2)) (processor (chandra s2))
                      (formatted_prompt (chandra s2)) img])"
    using tess
    by (auto simp: page_markdown_def tesseract_ocr_def chandra_ocr_def new_events_def
         split: sum.splits prod.splits)
qed

theorem quality_gate_selects_engine_witness:
  "image_to_string demo_env 2 = Inr (replicate 75 97 @ replicate 5 224)
   \<and> alpha_count (isalpha demo_env) (replicate 75 97 @ replicate 5 224) = 80
   \<and> diacritics_count (replicate 75 97 @ replicate 5 224) = 5
   \<and> \<not> tesseract_quality_ok (isalpha demo_env) (replicate 75 97 @ replicate 5 224)
   \<and> fst (page_markdown demo_env (Some 2, []) state0) = Inr (ascii ''vlm text'', Vlm)"
proof -
  let ?t = "replicate 75 97 @ replicate 5 224 :: pystr"
  have h1: "image_to_string demo_env 2 = Inr ?t" by (simp add: demo_env_def)
  have a: "alpha_count (isalpha demo_env) ?t = 80" by (simp add: demo_env_def demo_counts)
  have d: "diacritics_count ?t = 5" by (simp add: demo_counts)
  have h2: "alpha_count (isalpha demo_env) ?t < 2 ^ 51" by (simp add: a)
  note th = quality_gate_selects_engine [OF h1 h2, of state0 "[]"]
  from th have bad: "\<not> tesseract_quality_ok (isalpha demo_env) ?t" by (simp add: a d)
  have ld: "fst (load_chandra demo_env (emit (TesseractOcr 2) state0)) = Inr ()"
    by (simp add: load_chandra_def state0_def emit_def log_def demo_env_def Let_def)
  from th bad ld have "fst (page_markdown demo_env (Some 2, []) state0) = Inr (ascii ''vlm text'', Vlm)"
    by (auto simp: demo_env_def split: prod.splits sum.splits)
  with h1 a d bad show ?thesis by simp
qed

section \<open>Events of a file\<close>

lemma adds_iff: "adds P s s' \<longleftrightarrow> (\<exists>evs. trace s' = trace s @ evs \<and> list_all P evs)"
  unfolding adds_def new_events_def
  by (metis append_eq_conv_conj)

lemma adds_refl [simp]: "adds P s s"
  by (simp add: adds_iff)

lemma adds_trans: "adds P s s1 \<Longrightarrow> adds P s1 s2 \<Longrightarrow> adds P s s2"
  by (auto simp: adds_iff)

lemma adds_emit [simp]: "adds P s s1 \<Longrightarrow> adds P s (emit e s1) \<longleftrightarrow> P e"
  by (auto simp: adds_iff emit_def)

lemma adds_update [simp]:
  "adds P s (s1\<lparr>counts := c\<rparr>) = adds P s s1"
  "adds P s (s1\<lparr>chandra := ch\<rparr>) = adds P s s1"
  "adds P s (s1\<lparr>files := f\<rparr>) = adds P s s1"
  "adds P s (s1\<lparr>status_file := st\<rparr>) = adds P s s1"
  "adds P s (s1\<lparr>ticks := n\<rparr>) = adds P s s1"
  by (simp_all add: adds_def new_events_def)

lemma adds_update_left [simp]:
  "adds P (s\<lparr>counts := c\<rparr>) s1 = adds P s s1"
  "adds P (s\<lparr>chandra := ch\<rparr>) s1 = adds P s s1"
  "adds P (s\<lparr>files := f\<rparr>) s1 = adds P s s1"
  "adds P (s\<lparr>status_file := st\<rparr>) s1 = adds P s s1"
  "adds P (s\<lparr>ticks := n\<rparr>) s1 = adds P s s1"
  by (simp_all add: adds_def new_events_def)

lemma adds_time [simp]:
  "adds P s (snd (time_time E s1)) = adds P s s1"
  "adds P (snd (time_time E s)) s1 = adds P s s1"
  by (simp_all add: time_time_def)

lemma adds_log [simp]: "adds P s s1 \<Longrightarrow> adds P s (log l s1) \<longleftrightarrow> P (Log l)"
  by (simp add: log_def)

lemma adds_free_memory [simp]: "adds P s s1 \<Longrightarrow> adds P s (free_memory s1) \<longleftrightarrow> P FreeMemory"
  by (simp add: free_memory_def)

lemma adds_save_progress:
  "adds P s s1 \<Longrightarrow> (\<And>snap. P (SaveProgress snap)) \<Longrightarrow> adds P s (save_progress p s1)"
  by (simp add: save_progress_def Let_def)

lemma adds_write_text [simp]:
  "adds P s s1 \<Longrightarrow> adds P s (write_text p d s1) \<longleftrightarrow> P (WriteText p d)"
  by (simp add: write_text_def)

lemma adds_open_write [simp]:
  "adds P s s1 \<Longrightarrow> adds P s (open_write p s1) \<longleftrightarrow> P (OpenWrite p)"
  by (simp add: open_write_def)

lemma adds_unlink: "adds P s s1 \<Longrightarrow> P (Unlink p) \<Longrightarrow> adds P s (unlink_if_exists p s1)"
  by (simp add: unlink_if_exists_def)

lemma adds_rename: "adds P s s1 \<Longrightarrow> P (Rename a b) \<Longrightarrow> adds P s (snd (rename a b s1))"
  by (simp add: rename_def split: option.splits)

lemma image_of_renderedI:
  "i < length (pages doc) \<Longrightarrow> page_rendered E (pages doc ! i) \<Longrightarrow> raster (pages doc ! i) = Inr img
   \<Longrightarrow> image_of_rendered E doc img"
  unfolding image_of_rendered_def list_ex_iff by (metis nth_mem)

lemma render_page_page_event:
  "adds (page_event E doc tmp) s (snd (render_page E doc i s))"
  by (simp add: render_page_def Let_def page_rendered_def split: sum.splits)

lemma render_page_future_ok: "future_ok E doc (fst (render_page E doc i s))"
proof (cases "fst (render_page E doc i s)")
  case (Inl e)
  then show ?thesis by (simp add: future_ok_def)
next
  case (Inr unit)
  show ?thesis
  proof (cases "fst unit")
    case None
    with Inr show ?thesis by (cases unit) (simp add: future_ok_def)
  next
    case (Some img)
    with Inr have "i < length (pages doc) \<and> page_rendered E (pages doc ! i)
        \<and> raster (pages doc ! i) = Inr img"
      by (cases unit)
         (auto simp: render_page_def Let_def page_rendered_def split: sum.splits if_splits)
    then have "image_of_rendered E doc img" by (blast intro: image_of_renderedI)
    with Inr Some show ?thesis by (cases unit) (simp add: future_ok_def)
  qed
qed

lemma submit_page_event: "adds (page_event E doc tmp) s (snd (submit E doc i s))"
  unfolding submit_def
  by (rule adds_trans [OF _ render_page_page_event]) simp

lemma submit_future_ok: "future_ok E doc (fst (submit E doc i s))"
  by (simp add: submit_def render_page_future_ok)

lemma load_chandra_page_event: "adds (page_event E doc tmp) s (snd (load_chandra E s))"
  by (simp add: load_chandra_def Let_def split: sum.splits prod.splits)

lemma page_markdown_page_event:
  assumes "future_ok E doc (Inr unit)"
  shows "adds (page_event E doc tmp) s (snd (page_markdown E unit s))"
proof (cases "fst unit")
  case None
  then show ?thesis by (simp add: page_markdown_def)
next
  case (Some img)
  with assms have img: "image_of_rendered E doc img"
    by (cases unit) (simp add: future_ok_def)
  have 1: "adds (page_event E doc tmp) s (emit (TesseractOcr img) s)"
    using img by simp
  note 2 = adds_trans [OF 1 load_chandra_page_event]
  show ?thesis
  proof (cases "image_to_string E img")
    case (Inl e)
    with Some 1 show ?thesis
      by (simp add: page_markdown_def tesseract_ocr_def)
  next
    case (Inr t)
    show ?thesis
    proof (cases "tesseract_quality_ok (isalpha E) t")
      case True
      with Some Inr 1 show ?thesis
        by (simp add: page_markdown_def tesseract_ocr_def)
    next
      case False
      then have gf: "gate_failed E img" by (simp add: gate_failed_def Inr)
      obtain r s2 where ld: "load_chandra E (emit (TesseractOcr img) s) = (r, s2)"
        by (cases "load_chandra E (emit (TesseractOcr img) s)")
      with 2 have "adds (page_event E doc tmp) s s2" by (metis snd_conv)
      with Some Inr False img gf ld show ?thesis
        by (simp add: page_markdown_def tesseract_ocr_def chandra_ocr_def
            split: prod.splits sum.splits)
    qed
  qed
qed

lemma page_progress_adds:
  "adds P s s1 \<Longrightarrow> (\<And>snap. P (SaveProgress snap)) \<Longrightarrow>
   adds P s (page_progress E doc A dn fs k s1)"
  unfolding page_progress_def Let_def
  by (cases "time_time E s1") (simp add: adds_save_progress time_time_def)

lemma write_page_adds:
  "adds P s s1 \<Longrightarrow> P (WriteText tmp (ascii [CHR 0x0A, CHR 0x0A])) \<Longrightarrow> P (WriteText tmp md) \<Longrightarrow>
   (\<And>l. P (Log l)) \<Longrightarrow> P FreeMemory \<Longrightarrow> adds P s (write_page doc tmp k md tg s1)"
  by (simp add: write_page_def Let_def)

lemma prefetch_page_event:
  "adds (page_event E doc tmp) s (snd (prefetch E doc fut k s))"
  by (simp add: prefetch_def submit_page_event)

lemma prefetch_future_ok:
  "future_ok E doc fut \<Longrightarrow> future_ok E doc (fst (prefetch E doc fut k s))"
  by (simp add: prefetch_def submit_future_ok)

lemma page_step_page_event:
  assumes "future_ok E doc fut"
  shows "adds (page_event E doc tmp) s (snd (page_step E doc A dn fs tmp fut k s))
       \<and> (\<forall>fut'. fst (page_step E doc A dn fs tmp fut k s) = Inr fut' \<longrightarrow> future_ok E doc fut')"
proof -
  let ?P = "page_event E doc tmp"
  define s1 where "s1 = page_progress E doc A dn fs k s"
  have a1: "adds ?P s s1" unfolding s1_def by (rule page_progress_adds) simp_all
  show ?thesis
  proof (cases fut)
    case (Inl e)
    with a1 show ?thesis by (simp add: page_step_def s1_def)
  next
    case (Inr unit)
    obtain fut' s2 where sub: "prefetch E doc fut k s1 = (fut', s2)"
      by (cases "prefetch E doc fut k s1")
    have a2: "adds ?P s s2"
      using adds_trans [OF a1 prefetch_page_event [of E doc tmp s1 fut k]] sub by simp
    have f': "future_ok E doc fut'"
      using prefetch_future_ok [OF assms, of k s1] sub by simp
    obtain r s3 where pm: "page_markdown E unit s2 = (r, s3)" by (cases "page_markdown E unit s2")
    have "future_ok E doc (Inr unit)" using assms Inr by simp
    from page_markdown_page_event [OF this, of tmp s2] pm a2
    have a3: "adds ?P s s3" by (auto intro: adds_trans)
    show ?thesis
      using Inr sub pm a3 f'
      by (cases r) (auto simp: page_step_def s1_def [symmetric] write_page_adds)
  qed
qed

lemma ocr_pages_page_event:
  "future_ok E doc fut \<Longrightarrow>
   adds (page_event E doc tmp) s (snd (ocr_pages E doc A dn fs tmp fut ks s))"
proof (induction ks arbitrary: fut s)
  case Nil
  show ?case by simp
next
  case (Cons k ks)
  obtain r s' where st: "page_step E doc A dn fs tmp fut k s = (r, s')"
    by (cases "page_step E doc A dn fs tmp fut k s")
  from page_step_page_event [OF Cons.prems, of tmp s A dn fs k] st
  have a: "adds (page_event E doc tmp) s s'"
    and f: "\<And>fut'. r = Inr fut' \<Longrightarrow> future_ok E doc fut'" by simp_all
  show ?case
  proof (cases r)
    case (Inl e)
    with st a show ?thesis by simp
  next
    case (Inr fut')
    from adds_trans [OF a Cons.IH [OF f [OF Inr]]] st Inr show ?thesis by simp
  qed
qed

lemma page_event_file_event: "page_event E doc tmp ev \<Longrightarrow> file_event E doc md tmp ev"
  by (cases ev) simp_all

lemma adds_mono: "adds P s s' \<Longrightarrow> (\<And>ev. P ev \<Longrightarrow> Q ev) \<Longrightarrow> adds Q s s'"
  by (auto simp: adds_def list_all_iff)

lemma ocr_one_file_try_file_event:
  "adds (file_event E doc md tmp) s (snd (ocr_one_file_try E doc A dn fs md tmp s))"
proof -
  let ?P = "file_event E doc md tmp"
  show ?thesis
  proof (cases "forms doc")
    case (Some e)
    then show ?thesis by (simp add: ocr_one_file_try_def)
  next
    case None
    define s3 where "s3 = open_write tmp (log (LogFile (a_idx A) (a_pending_len A)
        (a_done_count A + a_idx A) (a_total A) dn (int (length (pages doc)))) (emit InitForms s))"
    obtain fut s4 where sub: "submit E doc 0 s3 = (fut, s4)" by (cases "submit E doc 0 s3")
    have a3: "adds ?P s s3" by (simp add: s3_def)
    have "adds (page_event E doc tmp) s3 s4"
      using submit_page_event [of E doc tmp s3 0] sub by simp
    then have "adds ?P s3 s4" by (rule adds_mono) (rule page_event_file_event)
    with a3 have a4: "adds ?P s s4" by (rule adds_trans)
    have f: "future_ok E doc fut" using submit_future_ok [of E doc 0 s3] sub by simp
    obtain r s5 where lp: "ocr_pages E doc A dn fs tmp fut [0..<length (pages doc)] s4 = (r, s5)"
      by (cases "ocr_pages E doc A dn fs tmp fut [0..<length (pages doc)] s4")
    have "adds (page_event E doc tmp) s4 s5"
      using ocr_pages_page_event [OF f] lp by (metis snd_conv)
    then have "adds ?P s4 s5" by (rule adds_mono) (rule page_event_file_event)
    with a4 have a5: "adds ?P s s5" by (rule adds_trans)
    show ?thesis
    proof (cases r)
      case (Inl e)
      with None sub lp a5 show ?thesis
        by (simp add: ocr_one_file_try_def s3_def [symmetric] Let_def)
    next
      case (Inr u)
      have "adds ?P s (emit Shutdown s5)" using a5 by simp
      then have "adds ?P s (snd (rename tmp md (emit Shutdown s5)))"
        by (rule adds_rename) simp
      with None sub lp Inr show ?thesis
        by (auto simp: ocr_one_file_try_def s3_def [symmetric] Let_def split: prod.splits sum.splits)
    qed
  qed
qed

lemma ocr_one_file_event:
  "adds (in_file_event E pdf) s (snd (ocr_one_file E pdf A s))"
proof (cases "to_output_name E pdf")
  case (Inl e)
  then show ?thesis by (simp add: ocr_one_file_def)
next
  case (Inr unique_name)
  obtain file_start s1 where t: "time_time E s = (file_start, s1)" by (cases "time_time E s")
  have a1: "adds (in_file_event E pdf) s (emit (OpenDocument pdf) s1)"
    using t by (metis adds_emit adds_refl adds_time(1) in_file_event.simps(1) snd_conv)
  show ?thesis
  proof (cases "open_document E pdf")
    case (Inl e)
    with Inr t a1 show ?thesis by (simp add: ocr_one_file_def)
  next
    case doc: (Inr doc)
    let ?md = "md_path E unique_name" and ?tmp = "tmp_path E unique_name"
    let ?s2 = "emit (OpenDocument pdf) s1"
    have eq: "in_file_event E pdf ev" if "file_event E doc ?md ?tmp ev" for ev
      using that Inr doc by (cases ev) simp_all
    obtain r s3 where tr: "ocr_one_file_try E doc A (stem (path_name pdf)) file_start ?md ?tmp ?s2 = (r, s3)"
      by (cases "ocr_one_file_try E doc A (stem (path_name pdf)) file_start ?md ?tmp ?s2")
    have "adds (file_event E doc ?md ?tmp) ?s2 s3"
      using ocr_one_file_try_file_event [of E doc ?md ?tmp ?s2 A "stem (path_name pdf)" file_start] tr
      by simp
    then have "adds (in_file_event E pdf) ?s2 s3"
      by (rule adds_mono) (rule eq)
    with a1 have a3: "adds (in_file_event E pdf) s s3" by (rule adds_trans)
    have P: "in_file_event E pdf CloseDocument" "in_file_event E pdf (Unlink ?md)" "in_file_event E pdf (Unlink ?tmp)"
      using Inr doc by simp_all
    show ?thesis
      using Inr doc t tr a3 P
      by (cases r) (simp_all add: ocr_one_file_def adds_unlink)
  qed
qed

lemma adds_list_all: "adds P s s' \<Longrightarrow> list_all P (new_events s s')"
  by (simp add: adds_def)

text \<open>
  C2. A page whose text layer has at least 50 alphabetic characters: extraction returns
  no image and the stripped text, reading the text layer is all it does; the loop
  takes the text as it is, tags it \<open>Txt\<close> and calls no engine. In a whole call of
  \<open>_ocr_one_file\<close> no such page is rendered: every rendered page has fewer than 50
  letters in its text layer, and both engines are only ever called on images of
  rendered pages. A page with fewer than 50 letters is rendered.
\<close>

theorem native_text_shortcut:
  assumes doc: "open_document E pdf = Inr doc"
      and idx: "page_idx < length (pages doc)"
      and layer: "text_layer (pages doc ! page_idx) = Inr text"
  shows "(50 \<le> alpha_count (isalpha E) text \<longrightarrow>
            render_page E doc page_idx s =
              (Inr (None, strip (isspace E) text), emit (GetText page_idx) s)
          \<and> page_markdown E (None, strip (isspace E) text) s1 =
              (Inr (strip (isspace E) text, Txt),
               s1\<lparr>counts := (counts s1)\<lparr>c_txt := c_txt (counts s1) + 1\<rparr>\<rparr>)
          \<and> RenderPage page_idx \<notin> set (new_events s0 (snd (ocr_one_file E pdf A s0))))
       \<and> (alpha_count (isalpha E) text < 50 \<longrightarrow>
            new_events s (snd (render_page E doc page_idx s)) =
              [GetText page_idx, RenderPage page_idx]
          \<and> fst (render_page E doc page_idx s) =
              (case raster (pages doc ! page_idx) of
                 Inl e \<Rightarrow> Inl e
               | Inr img \<Rightarrow> Inr (Some img, [])))
       \<and> (\<forall>i. RenderPage i \<in> set (new_events s0 (snd (ocr_one_file E pdf A s0))) \<longrightarrow>
              i < length (pages doc) \<and> page_rendered E (pages doc ! i))
       \<and> (\<forall>img. TesseractOcr img \<in> set (new_events s0 (snd (ocr_one_file E pdf A s0))) \<longrightarrow>
              image_of_rendered E doc img)
       \<and> (\<forall>m pr fp img.
              ChandraOcr m pr fp img \<in> set (new_events s0 (snd (ocr_one_file E pdf A s0))) \<longrightarrow>
              image_of_rendered E doc img)"
proof -
  let ?evs = "new_events s0 (snd (ocr_one_file E pdf A s0))"
  have all: "list_all (in_file_event E pdf) ?evs"
    by (rule adds_list_all) (rule ocr_one_file_event)
  have ev: "in_file_event E pdf ev" if "ev \<in> set ?evs" for ev
    using all that by (simp add: list_all_iff)
  have R: "i < length (pages doc) \<and> page_rendered E (pages doc ! i)" if "RenderPage i \<in> set ?evs" for i
    using ev [OF that] doc by (simp split: sum.splits)
  have T: "image_of_rendered E doc img" if "TesseractOcr img \<in> set ?evs" for img
    using ev [OF that] doc by (simp split: sum.splits)
  have C: "image_of_rendered E doc img" if "ChandraOcr m pr fp img \<in> set ?evs" for m pr fp img
    using ev [OF that] doc by (simp split: sum.splits)
  have N: "RenderPage page_idx \<notin> set ?evs" if "50 \<le> alpha_count (isalpha E) text"
    using R [of page_idx] that layer
    by (auto simp: page_rendered_def NATIVE_TEXT_THRESHOLD_def)
  have A1: "render_page E doc page_idx s =
              (Inr (None, strip (isspace E) text), emit (GetText page_idx) s)"
    if "50 \<le> alpha_count (isalpha E) text"
    using that idx layer by (simp add: render_page_def Let_def NATIVE_TEXT_THRESHOLD_def)
  have A2: "page_markdown E (None, strip (isspace E) text) s1 =
              (Inr (strip (isspace E) text, Txt),
               s1\<lparr>counts := (counts s1)\<lparr>c_txt := c_txt (counts s1) + 1\<rparr>\<rparr>)"
    by (simp add: page_markdown_def)
  have B: "new_events s (snd (render_page E doc page_idx s)) =
              [GetText page_idx, RenderPage page_idx]
          \<and> fst (render_page E doc page_idx s) =
              (case raster (pages doc ! page_idx) of
                 Inl e \<Rightarrow> Inl e
               | Inr img \<Rightarrow> Inr (Some img, []))"
    if "alpha_count (isalpha E) text < 50"
    using that idx layer
    by (simp add: render_page_def Let_def NATIVE_TEXT_THRESHOLD_def new_events_def
        split: sum.splits)
  from N A1 A2 B R T C show ?thesis by blast
qed

lemma strip_replicate: "\<not> sp c \<Longrightarrow> strip sp (replicate n c) = replicate n c"
  by (simp add: strip_def)

theorem native_text_shortcut_witness:
  "open_document demo_env demo_pdf = Inr demo_document
   \<and> text_layer (pages demo_document ! 0) = Inr (replicate 200 97)
   \<and> alpha_count (isalpha demo_env) (replicate 200 97) = 200
   \<and> render_page demo_env demo_document 0 state0 =
       (Inr (None, replicate 200 97), emit (GetText 0) state0)
   \<and> RenderPage 0 \<notin> set (new_events state0 (snd (ocr_one_file demo_env demo_pdf demo_args state0)))"
proof -
  have h1: "open_document demo_env demo_pdf = Inr demo_document"
    by (simp add: demo_env_def demo_pdf_def)
  have h2: "0 < length (pages demo_document)" by (simp add: demo_document_def)
  have h3: "text_layer (pages demo_document ! 0) = Inr (replicate 200 97)"
    by (simp add: demo_document_def)
  have a: "alpha_count (isalpha demo_env) (replicate 200 97) = 200"
    by (simp add: alpha_count_def demo_env_def demo_alpha_97)
  have st: "strip (isspace demo_env) (replicate 200 97) = replicate 200 97"
    by (simp add: strip_replicate demo_env_def demo_isspace_def)
  from native_text_shortcut [OF h1 h2 h3, of state0 state0 state0 demo_args] a st h1 h3
  show ?thesis by simp
qed
section \<open>The output name\<close>










section \<open>The page loop and the file processor as functions of the document\<close>

lemma state_emit [simp]:
  "files (emit e s) = files s" "chandra (emit e s) = chandra s" "counts (emit e s) = counts s"
  "status_file (emit e s) = status_file s" "ticks (emit e s) = ticks s"
  by (simp_all add: emit_def)

lemma state_log [simp]:
  "files (log l s) = files s" "chandra (log l s) = chandra s" "counts (log l s) = counts s"
  "status_file (log l s) = status_file s" "ticks (log l s) = ticks s"
  by (simp_all add: log_def)

lemma state_free_memory [simp]:
  "files (free_memory s) = files s" "chandra (free_memory s) = chandra s"
  "counts (free_memory s) = counts s" "status_file (free_memory s) = status_file s"
  "ticks (free_memory s) = ticks s"
  by (simp_all add: free_memory_def)

lemma state_time [simp]:
  "files (snd (time_time E s)) = files s" "chandra (snd (time_time E s)) = chandra s"
  "counts (snd (time_time E s)) = counts s" "status_file (snd (time_time E s)) = status_file s"
  by (simp_all add: time_time_def)

lemma state_save_progress [simp]:
  "files (save_progress p s) = files s" "chandra (save_progress p s) = chandra s"
  "counts (save_progress p s) = counts s" "ticks (save_progress p s) = ticks s"
  by (simp_all add: save_progress_def Let_def)

lemma state_write_text [simp]:
  "chandra (write_text p d s) = chandra s" "counts (write_text p d s) = counts s"
  "status_file (write_text p d s) = status_file s" "ticks (write_text p d s) = ticks s"
  "files (write_text p d s) = (files s)(p \<mapsto> (case files s p of None \<Rightarrow> [] | Some c \<Rightarrow> c) @ d)"
  by (simp_all add: write_text_def)

lemma state_open_write [simp]:
  "chandra (open_write p s) = chandra s" "counts (open_write p s) = counts s"
  "status_file (open_write p s) = status_file s" "ticks (open_write p s) = ticks s"
  "files (open_write p s) = (files s)(p \<mapsto> [])"
  by (simp_all add: open_write_def)

lemma render_page_pure:
  "fst (render_page E doc i s) = page_unit E doc i"
  "files (snd (render_page E doc i s)) = files s"
  "chandra (snd (render_page E doc i s)) = chandra s"
  "counts (snd (render_page E doc i s)) = counts s"
  by (simp_all add: render_page_def page_unit_def Let_def split: sum.splits)

lemma submit_pure:
  "fst (submit E doc i s) = page_unit E doc i"
  "files (snd (submit E doc i s)) = files s"
  "chandra (snd (submit E doc i s)) = chandra s"
  "counts (snd (submit E doc i s)) = counts s"
  by (simp_all add: submit_def render_page_pure)

lemma load_chandra_files [simp]: "files (snd (load_chandra E s)) = files s"
  by (simp add: load_chandra_def Let_def split: sum.splits prod.splits)

lemma load_chandra_consistent:
  assumes "chandra_consistent E (chandra s)"
  shows "chandra_consistent E (chandra (snd (load_chandra E s)))"
    and "fst (load_chandra E s) = Inr u \<Longrightarrow>
           mlx_generate E (model (chandra (snd (load_chandra E s))))
              (processor (chandra (snd (load_chandra E s))))
              (formatted_prompt (chandra (snd (load_chandra E s)))) img = fallback_text E img"
    and "fst (load_chandra E s) = Inl e \<Longrightarrow> fallback_text E img = Inl e"
  using assms
  by (auto simp: load_chandra_def chandra_consistent_def fallback_text_def Let_def
      split: sum.splits prod.splits if_splits)

lemma page_markdown_files [simp]: "files (snd (page_markdown E u s)) = files s"
proof (cases "fst u")
  case None
  then show ?thesis by (simp add: page_markdown_def)
next
  case (Some img)
  obtain r s2 where ld: "load_chandra E (emit (TesseractOcr img) s) = (r, s2)"
    by (cases "load_chandra E (emit (TesseractOcr img) s)")
  then have "files s2 = files s"
    using load_chandra_files [of E "emit (TesseractOcr img) s"] by simp
  with Some ld show ?thesis
    by (auto simp: page_markdown_def tesseract_ocr_def chandra_ocr_def split: sum.splits)
qed

lemma page_markdown_pure:
  assumes "chandra_consistent E (chandra s)"
  shows "fst (page_markdown E u s) = selected_text E u"
    and "chandra_consistent E (chandra (snd (page_markdown E u s)))"
proof -
  show "fst (page_markdown E u s) = selected_text E u"
  proof (cases "fst u")
    case None
    then show ?thesis by (simp add: page_markdown_def selected_text_def)
  next
    case (Some img)
    let ?s1 = "emit (TesseractOcr img) s"
    have c1: "chandra_consistent E (chandra ?s1)" using assms by simp
    obtain r s2 where ld: "load_chandra E ?s1 = (r, s2)" by (cases "load_chandra E ?s1")
    from load_chandra_consistent(2,3) [OF c1, of _ img] ld
    have "r = Inr () \<Longrightarrow> mlx_generate E (model (chandra s2)) (processor (chandra s2))
              (formatted_prompt (chandra s2)) img = fallback_text E img"
      and "\<And>e. r = Inl e \<Longrightarrow> fallback_text E img = Inl e"
      by simp_all
    with Some ld show ?thesis
      by (auto simp: page_markdown_def selected_text_def tesseract_ocr_def chandra_ocr_def
          split: sum.splits)
  qed
  show "chandra_consistent E (chandra (snd (page_markdown E u s)))"
  proof (cases "fst u")
    case None
    with assms show ?thesis by (simp add: page_markdown_def)
  next
    case (Some img)
    let ?s1 = "emit (TesseractOcr img) s"
    have c1: "chandra_consistent E (chandra ?s1)" using assms by simp
    obtain r s2 where ld: "load_chandra E ?s1 = (r, s2)" by (cases "load_chandra E ?s1")
    from load_chandra_consistent(1) [OF c1] ld have "chandra_consistent E (chandra s2)" by simp
    with Some ld assms show ?thesis
      by (auto simp: page_markdown_def tesseract_ocr_def chandra_ocr_def
          split: sum.splits)
  qed
qed

lemma state_page_progress [simp]:
  "files (page_progress E doc A dn fs k s) = files s"
  "chandra (page_progress E doc A dn fs k s) = chandra s"
  "counts (page_progress E doc A dn fs k s) = counts s"
  by (simp_all add: page_progress_def Let_def split: prod.splits)
     (simp_all add: time_time_def)

lemma state_write_page [simp]:
  "chandra (write_page doc tmp k md tg s) = chandra s"
  "counts (write_page doc tmp k md tg s) = counts s"
  "status_file (write_page doc tmp k md tg s) = status_file s"
  "files (write_page doc tmp k md tg s) =
     (files s)(tmp \<mapsto> (case files s tmp of None \<Rightarrow> [] | Some c \<Rightarrow> c)
        @ (if 0 < k then ascii [CHR 0x0A, CHR 0x0A] else []) @ md)"
  by (simp_all add: write_page_def Let_def)

lemma prefetch_pure:
  "fst (prefetch E doc fut k s) =
     (if k + 1 < length (pages doc) then page_unit E doc (k + 1) else fut)"
  "files (snd (prefetch E doc fut k s)) = files s"
  "chandra (snd (prefetch E doc fut k s)) = chandra s"
  "counts (snd (prefetch E doc fut k s)) = counts s"
  by (simp_all add: prefetch_def submit_pure)

lemma page_step_pure:
  assumes "chandra_consistent E (chandra s)"
  shows "chandra_consistent E (chandra (snd (page_step E doc A dn fs tmp fut k s)))"
    and "fst (page_step E doc A dn fs tmp fut k s) =
          (case fut of
             Inl e \<Rightarrow> Inl e
           | Inr unit \<Rightarrow>
               (case selected_text E unit of
                  Inl e \<Rightarrow> Inl e
                | Inr mt \<Rightarrow> Inr (if k + 1 < length (pages doc) then page_unit E doc (k + 1)
                                  else fut)))"
    and "files (snd (page_step E doc A dn fs tmp fut k s)) =
          (case fut of
             Inl e \<Rightarrow> files s
           | Inr unit \<Rightarrow>
               (case selected_text E unit of
                  Inl e \<Rightarrow> files s
                | Inr mt \<Rightarrow>
                    (files s)(tmp \<mapsto> (case files s tmp of None \<Rightarrow> [] | Some c \<Rightarrow> c)
                       @ (if 0 < k then ascii [CHR 0x0A, CHR 0x0A] else []) @ fst mt)))"
proof -
  define s1 where "s1 = page_progress E doc A dn fs k s"
  obtain fut' s2 where sub: "prefetch E doc fut k s1 = (fut', s2)"
    by (cases "prefetch E doc fut k s1")
  have s2: "files s2 = files s" "chandra s2 = chandra s"
    and fut': "fut' = (if k + 1 < length (pages doc) then page_unit E doc (k + 1) else fut)"
    using sub prefetch_pure [of E doc fut k s1] by (simp_all add: s1_def)
  have c2: "chandra_consistent E (chandra s2)" using assms s2 by simp
  have step: "page_step E doc A dn fs tmp fut k s =
     (case fut of
        Inl e \<Rightarrow> (Inl e, s1)
      | Inr unit \<Rightarrow>
          (case selected_text E unit of
             Inl e \<Rightarrow> (Inl e, snd (page_markdown E unit s2))
           | Inr mt \<Rightarrow>
               (Inr fut', write_page doc tmp k (fst mt) (snd mt) (snd (page_markdown E unit s2)))))"
  proof (cases fut)
    case (Inl e)
    then show ?thesis by (simp add: page_step_def s1_def)
  next
    case (Inr unit)
    obtain r s3 where pm: "page_markdown E unit s2 = (r, s3)" by (cases "page_markdown E unit s2")
    with page_markdown_pure(1) [OF c2, of unit] have "r = selected_text E unit" by simp
    with pm have "page_markdown E unit s2 = (selected_text E unit, s3)" by simp
    with Inr sub show ?thesis
      by (cases "selected_text E unit") (auto simp: page_step_def s1_def [symmetric])
  qed
  have c3: "chandra_consistent E (chandra (snd (page_markdown E u s2)))" for u
    by (rule page_markdown_pure(2) [OF c2])
  have f3: "files (snd (page_markdown E u s2)) = files s" for u
    by (simp add: s2)
  show "chandra_consistent E (chandra (snd (page_step E doc A dn fs tmp fut k s)))"
    unfolding step using assms c3 by (simp add: s1_def split: sum.splits)
  show "fst (page_step E doc A dn fs tmp fut k s) =
          (case fut of
             Inl e \<Rightarrow> Inl e
           | Inr unit \<Rightarrow>
               (case selected_text E unit of
                  Inl e \<Rightarrow> Inl e
                | Inr mt \<Rightarrow> Inr (if k + 1 < length (pages doc) then page_unit E doc (k + 1)
                                  else fut)))"
    unfolding step fut' by (simp split: sum.splits)
  show "files (snd (page_step E doc A dn fs tmp fut k s)) =
          (case fut of
             Inl e \<Rightarrow> files s
           | Inr unit \<Rightarrow>
               (case selected_text E unit of
                  Inl e \<Rightarrow> files s
                | Inr mt \<Rightarrow>
                    (files s)(tmp \<mapsto> (case files s tmp of None \<Rightarrow> [] | Some c \<Rightarrow> c)
                       @ (if 0 < k then ascii [CHR 0x0A, CHR 0x0A] else []) @ fst mt)))"
    unfolding step using f3 by (simp add: s1_def split: sum.splits)
qed

lemma loop_outcome_simps [simp]:
  "loop_outcome E doc [] = Inr ()"
  "loop_outcome E doc (k # ks) =
     (case page_text E doc k of Inl e \<Rightarrow> Inl e | Inr mt \<Rightarrow> loop_outcome E doc ks)"
  by (simp_all add: loop_outcome_def split: sum.splits)

lemma ocr_pages_pure:
  assumes "chandra_consistent E (chandra s)"
      and "k \<le> length (pages doc)"
      and "k < length (pages doc) \<Longrightarrow> fut = page_unit E doc k"
      and "files s tmp = Some c"
  shows "fst (ocr_pages E doc A dn fs tmp fut [k..<length (pages doc)] s) =
           loop_outcome E doc [k..<length (pages doc)]
       \<and> files (snd (ocr_pages E doc A dn fs tmp fut [k..<length (pages doc)] s)) =
           (files s)(tmp \<mapsto> c @ written E doc [k..<length (pages doc)])
       \<and> chandra_consistent E
           (chandra (snd (ocr_pages E doc A dn fs tmp fut [k..<length (pages doc)] s)))"
  using assms
proof (induction "length (pages doc) - k" arbitrary: k fut s c)
  case 0
  then have kn: "length (pages doc) = k" by simp
  show ?case using "0.prems"(1,4) by (simp add: kn fun_upd_idem)
next
  case (Suc d)
  let ?n = "length (pages doc)"
  from Suc.hyps(2) have lt: "k < ?n" by simp
  then have upt: "[k..<?n] = k # [Suc k..<?n]" by (simp add: upt_conv_Cons)
  from Suc.prems(3) [OF lt] have fut: "fut = page_unit E doc k" .
  obtain r s' where st: "page_step E doc A dn fs tmp fut k s = (r, s')"
    by (cases "page_step E doc A dn fs tmp fut k s")
  note ps = page_step_pure [OF Suc.prems(1), of doc A dn fs tmp fut k, unfolded st, simplified]
  show ?case
  proof (cases "page_text E doc k")
    case (Inl e)
    then have "r = Inl e" and "files s' = files s"
      using ps(2,3) fut by (auto simp: page_text_def split: sum.splits)
    with Inl st ps(1) Suc.prems(4) show ?thesis by (simp add: upt fun_upd_idem)
  next
    case (Inr mt)
    then obtain unit where u: "page_unit E doc k = Inr unit" and sel: "selected_text E unit = Inr mt"
      by (auto simp: page_text_def split: sum.splits)
    let ?fut' = "if k + 1 < ?n then page_unit E doc (k + 1) else fut"
    let ?c' = "c @ (if 0 < k then ascii [CHR 0x0A, CHR 0x0A] else []) @ fst mt"
    from ps(2) fut u sel have r: "r = Inr ?fut'" by simp
    from ps(3) fut u sel Suc.prems(4)
    have f': "files s' = (files s)(tmp \<mapsto> ?c')"
      by simp
    have IH: "fst (ocr_pages E doc A dn fs tmp ?fut' [Suc k..<?n] s') =
           loop_outcome E doc [Suc k..<?n]
       \<and> files (snd (ocr_pages E doc A dn fs tmp ?fut' [Suc k..<?n] s')) =
           (files s')(tmp \<mapsto> ?c' @ written E doc [Suc k..<?n])
       \<and> chandra_consistent E
           (chandra (snd (ocr_pages E doc A dn fs tmp ?fut' [Suc k..<?n] s')))"
    proof (rule Suc.hyps(1))
      show "d = ?n - Suc k" using Suc.hyps(2) by simp
      show "chandra_consistent E (chandra s')" using ps(1) .
      show "Suc k \<le> ?n" using lt by simp
      show "?fut' = page_unit E doc (Suc k)" if "Suc k < ?n" using that by simp
      show "files s' tmp = Some ?c'" by (simp add: f')
    qed
    with Inr st r f' show ?thesis by (simp add: upt)
  qed
qed

lemma page_step_sequential_pure:
  assumes "chandra_consistent E (chandra s)"
  shows "chandra_consistent E (chandra (snd (page_step_sequential E doc A dn fs tmp k s)))"
    and "fst (page_step_sequential E doc A dn fs tmp k s) =
          (case page_text E doc k of Inl e \<Rightarrow> Inl e | Inr mt \<Rightarrow> Inr ())"
    and "files (snd (page_step_sequential E doc A dn fs tmp k s)) =
          (case page_text E doc k of
             Inl e \<Rightarrow> files s
           | Inr mt \<Rightarrow>
               (files s)(tmp \<mapsto> (case files s tmp of None \<Rightarrow> [] | Some c \<Rightarrow> c)
                  @ (if 0 < k then ascii [CHR 0x0A, CHR 0x0A] else []) @ fst mt))"
proof -
  define s1 where "s1 = page_progress E doc A dn fs k s"
  obtain u s2 where rp: "render_page E doc k s1 = (u, s2)" by (cases "render_page E doc k s1")
  have s2: "files s2 = files s" "chandra s2 = chandra s" and u: "u = page_unit E doc k"
    using rp render_page_pure [of E doc k s1] by (simp_all add: s1_def)
  have c2: "chandra_consistent E (chandra s2)" using assms s2 by simp
  have step: "page_step_sequential E doc A dn fs tmp k s =
     (case page_unit E doc k of
        Inl e \<Rightarrow> (Inl e, s2)
      | Inr unit \<Rightarrow>
          (case selected_text E unit of
             Inl e \<Rightarrow> (Inl e, snd (page_markdown E unit s2))
           | Inr mt \<Rightarrow>
               (Inr (), write_page doc tmp k (fst mt) (snd mt) (snd (page_markdown E unit s2)))))"
  proof (cases "page_unit E doc k")
    case (Inl e)
    with rp u show ?thesis by (simp add: page_step_sequential_def s1_def [symmetric])
  next
    case (Inr unit)
    obtain r s3 where pm: "page_markdown E unit s2 = (r, s3)" by (cases "page_markdown E unit s2")
    with page_markdown_pure(1) [OF c2, of unit] have "r = selected_text E unit" by simp
    with pm have "page_markdown E unit s2 = (selected_text E unit, s3)" by simp
    with Inr rp u show ?thesis
      by (cases "selected_text E unit") (auto simp: page_step_sequential_def s1_def [symmetric])
  qed
  have c3: "chandra_consistent E (chandra (snd (page_markdown E v s2)))" for v
    by (rule page_markdown_pure(2) [OF c2])
  have f3: "files (snd (page_markdown E v s2)) = files s" for v
    by (simp add: s2)
  show "chandra_consistent E (chandra (snd (page_step_sequential E doc A dn fs tmp k s)))"
    unfolding step using c2 c3 by (simp split: sum.splits)
  show "fst (page_step_sequential E doc A dn fs tmp k s) =
          (case page_text E doc k of Inl e \<Rightarrow> Inl e | Inr mt \<Rightarrow> Inr ())"
    unfolding step by (simp add: page_text_def split: sum.splits)
  show "files (snd (page_step_sequential E doc A dn fs tmp k s)) =
          (case page_text E doc k of
             Inl e \<Rightarrow> files s
           | Inr mt \<Rightarrow>
               (files s)(tmp \<mapsto> (case files s tmp of None \<Rightarrow> [] | Some c \<Rightarrow> c)
                  @ (if 0 < k then ascii [CHR 0x0A, CHR 0x0A] else []) @ fst mt))"
    unfolding step using f3 s2 by (simp add: page_text_def split: sum.splits)
qed

lemma ocr_pages_sequential_pure:
  assumes "chandra_consistent E (chandra s)" and "files s tmp = Some c"
  shows "fst (ocr_pages_sequential E doc A dn fs tmp ks s) = loop_outcome E doc ks
       \<and> files (snd (ocr_pages_sequential E doc A dn fs tmp ks s)) =
           (files s)(tmp \<mapsto> c @ written E doc ks)
       \<and> chandra_consistent E (chandra (snd (ocr_pages_sequential E doc A dn fs tmp ks s)))"
  using assms
proof (induction ks arbitrary: s c)
  case Nil
  then show ?case by (simp add: fun_upd_idem)
next
  case (Cons k ks)
  obtain r s' where st: "page_step_sequential E doc A dn fs tmp k s = (r, s')"
    by (cases "page_step_sequential E doc A dn fs tmp k s")
  note ps = page_step_sequential_pure [OF Cons.prems(1), of doc A dn fs tmp k, unfolded st, simplified]
  show ?case
  proof (cases "page_text E doc k")
    case (Inl e)
    with ps st Cons.prems show ?thesis by (simp add: fun_upd_idem)
  next
    case (Inr mt)
    let ?c' = "c @ (if 0 < k then ascii [CHR 0x0A, CHR 0x0A] else []) @ fst mt"
    from ps(3) Inr Cons.prems(2) have f': "files s' = (files s)(tmp \<mapsto> ?c')" by simp
    then have "files s' tmp = Some ?c'" by simp
    from Cons.IH [OF ps(1) this] Inr ps(2) st f' show ?thesis
      by (auto simp: fun_upd_def)
  qed
qed

lemma collect_texts_length: "collect_texts E doc ks = Inr mds \<Longrightarrow> length mds = length ks"
  by (induction ks arbitrary: mds) (auto split: sum.splits)

lemma written_tail:
  "list_all (\<lambda>k. 0 < k) ks \<Longrightarrow> collect_texts E doc ks = Inr mds \<Longrightarrow>
   written E doc ks = concat (map (\<lambda>m. ascii [CHR 0x0A, CHR 0x0A] @ m) mds)"
  by (induction ks arbitrary: mds) (auto split: sum.splits)

lemma join_blank_Cons:
  "join_blank (m # ms) = m @ concat (map (\<lambda>x. ascii [CHR 0x0A, CHR 0x0A] @ x) ms)"
  by (induction ms arbitrary: m) simp_all

lemma written_join_blank:
  assumes "collect_texts E doc [0..<n] = Inr mds"
  shows "written E doc [0..<n] = join_blank mds"
proof (cases n)
  case 0
  with assms show ?thesis by simp
next
  case (Suc n')
  then have upt: "[0..<n] = 0 # [1..<n]" by (simp add: upt_conv_Cons)
  from assms obtain mt ms where pt: "page_text E doc 0 = Inr mt"
    and rest: "collect_texts E doc [1..<n] = Inr ms" and mds: "mds = fst mt # ms"
    unfolding upt by (auto split: sum.splits)
  have "list_all (\<lambda>k. 0 < k) [1..<n]" by (simp add: list_all_iff)
  from written_tail [OF this rest] pt mds show ?thesis
    unfolding upt by (simp add: join_blank_Cons del: join_blank.simps)
qed

lemma tmp_ne_md: "tmp_path E n \<noteq> md_path E n"
  by (simp add: tmp_path_def md_path_def ascii_def)

lemma tmp_ne_md' : "tmp_path E n = md_path E n' \<Longrightarrow> False"
proof -
  assume "tmp_path E n = md_path E n'"
  then have "last (tmp_path E n) = last (md_path E n')" by simp
  then show False by (simp add: tmp_path_def md_path_def ascii_def)
qed

lemma state_unlink [simp]:
  "files (unlink_if_exists p s) = (files s)(p := None)"
  "chandra (unlink_if_exists p s) = chandra s"
  "counts (unlink_if_exists p s) = counts s"
  by (auto simp: unlink_if_exists_def)

lemma rename_pure:
  "files s a = Some c \<Longrightarrow> fst (rename a b s) = Inr ()"
  "files s a = Some c \<Longrightarrow> files (snd (rename a b s)) = (files s)(a := None, b \<mapsto> c)"
  "chandra (snd (rename a b s)) = chandra s"
  by (simp_all add: rename_def split: option.splits)

lemma ocr_one_file_try_pure:
  assumes c: "chandra_consistent E (chandra s)" and ne: "tmp \<noteq> md"
  shows "fst (ocr_one_file_try E doc A dn fs md tmp s) =
           (case file_outcome E doc of Inl e \<Rightarrow> Inl e | Inr u \<Rightarrow> Inr (int (length (pages doc))))"
    and "files (snd (ocr_one_file_try E doc A dn fs md tmp s)) =
           (case forms doc of
              Some e \<Rightarrow> files s
            | None \<Rightarrow>
                (case loop_outcome E doc [0..<length (pages doc)] of
                   Inl e \<Rightarrow> (files s)(tmp \<mapsto> written E doc [0..<length (pages doc)])
                 | Inr u \<Rightarrow> (files s)(tmp := None,
                                      md \<mapsto> written E doc [0..<length (pages doc)])))"
    and "chandra_consistent E (chandra (snd (ocr_one_file_try E doc A dn fs md tmp s)))"
proof -
  let ?n = "length (pages doc)"
  define s3 where "s3 = open_write tmp (log (LogFile (a_idx A) (a_pending_len A)
        (a_done_count A + a_idx A) (a_total A) dn (int ?n)) (emit InitForms s))"
  obtain fut s4 where sub: "submit E doc 0 s3 = (fut, s4)" by (cases "submit E doc 0 s3")
  have fut: "fut = page_unit E doc 0" and f4: "files s4 = (files s)(tmp \<mapsto> [])"
    and c4: "chandra_consistent E (chandra s4)"
    using sub submit_pure [of E doc 0 s3] c by (simp_all add: s3_def)
  obtain r s5 where lp: "ocr_pages E doc A dn fs tmp fut [0..<?n] s4 = (r, s5)"
    by (cases "ocr_pages E doc A dn fs tmp fut [0..<?n] s4")
  have "files s4 tmp = Some []" by (simp add: f4)
  from ocr_pages_pure [OF c4 _ _ this, where k=0 and fut=fut and A=A and dn=dn and fs=fs and doc=doc] fut lp
  have r: "r = loop_outcome E doc [0..<?n]"
    and f5: "files s5 = (files s)(tmp \<mapsto> written E doc [0..<?n])"
    and c5: "chandra_consistent E (chandra s5)"
    by (simp_all add: f4)
  have "files (emit Shutdown s5) tmp = Some (written E doc [0..<?n])" by (simp add: f5)
  from rename_pure(1,2) [OF this, of md]
  obtain s6 where rn: "rename tmp md (emit Shutdown s5) = (Inr (), s6)"
    and f6: "files s6 = (files s)(tmp := None, md \<mapsto> written E doc [0..<?n])"
    using ne by (cases "rename tmp md (emit Shutdown s5)") (simp add: f5)
  have c6: "chandra_consistent E (chandra s6)"
    using rename_pure(3) [of tmp md "emit Shutdown s5"] rn c5 by simp
  have tr: "ocr_one_file_try E doc A dn fs md tmp s =
     (case forms doc of
        Some e \<Rightarrow> (Inl e, emit InitForms s)
      | None \<Rightarrow>
          (case r of
             Inl e \<Rightarrow> (Inl e, s5)
           | Inr u \<Rightarrow> (Inr (int ?n), free_memory s6)))"
    using sub lp rn
    by (auto simp: ocr_one_file_try_def s3_def [symmetric] Let_def split: option.splits sum.splits)
  show "fst (ocr_one_file_try E doc A dn fs md tmp s) =
           (case file_outcome E doc of Inl e \<Rightarrow> Inl e | Inr u \<Rightarrow> Inr (int (length (pages doc))))"
    unfolding tr by (simp add: file_outcome_def r split: option.splits sum.splits)
  show "files (snd (ocr_one_file_try E doc A dn fs md tmp s)) =
           (case forms doc of
              Some e \<Rightarrow> files s
            | None \<Rightarrow>
                (case loop_outcome E doc [0..<length (pages doc)] of
                   Inl e \<Rightarrow> (files s)(tmp \<mapsto> written E doc [0..<length (pages doc)])
                 | Inr u \<Rightarrow> (files s)(tmp := None,
                                      md \<mapsto> written E doc [0..<length (pages doc)])))"
    unfolding tr using f5 f6 by (simp add: r split: option.splits sum.splits)
  show "chandra_consistent E (chandra (snd (ocr_one_file_try E doc A dn fs md tmp s)))"
    unfolding tr using c c5 c6 by (simp split: option.splits sum.splits)
qed

lemma ocr_one_file_pure:
  assumes c: "chandra_consistent E (chandra s)"
      and nm: "to_output_name E pdf = Inr unique_name"
      and doc: "open_document E pdf = Inr doc"
  shows "fst (ocr_one_file E pdf A s) =
           (case file_outcome E doc of Inl e \<Rightarrow> Inl e | Inr u \<Rightarrow> Inr (int (length (pages doc))))"
    and "files (snd (ocr_one_file E pdf A s)) =
           (case file_outcome E doc of
              Inl e \<Rightarrow> (files s)(tmp_path E unique_name := None, md_path E unique_name := None)
            | Inr u \<Rightarrow> (files s)(tmp_path E unique_name := None,
                 md_path E unique_name \<mapsto> written E doc [0..<length (pages doc)]))"
    and "chandra_consistent E (chandra (snd (ocr_one_file E pdf A s)))"
proof -
  let ?md = "md_path E unique_name" and ?tmp = "tmp_path E unique_name"
  obtain file_start s1 where t: "time_time E s = (file_start, s1)" by (cases "time_time E s")
  let ?s2 = "emit (OpenDocument pdf) s1"
  have s2: "files ?s2 = files s" "chandra ?s2 = chandra s"
    using t state_time(1,2) [of E s] by simp_all
  then have c2: "chandra_consistent E (chandra ?s2)" using c by simp
  obtain r s3 where tr: "ocr_one_file_try E doc A (stem (path_name pdf)) file_start ?md ?tmp ?s2 = (r, s3)"
    by (cases "ocr_one_file_try E doc A (stem (path_name pdf)) file_start ?md ?tmp ?s2")
  have P1: "r = (case file_outcome E doc of Inl e \<Rightarrow> Inl e
                 | Inr u \<Rightarrow> Inr (int (length (pages doc))))"
    using ocr_one_file_try_pure(1) [OF c2 tmp_ne_md [of E unique_name], where doc=doc and A=A
        and dn="stem (path_name pdf)" and fs=file_start] tr by simp
  have P2: "files s3 =
           (case forms doc of
              Some e \<Rightarrow> files s
            | None \<Rightarrow>
                (case loop_outcome E doc [0..<length (pages doc)] of
                   Inl e \<Rightarrow> (files s)(?tmp \<mapsto> written E doc [0..<length (pages doc)])
                 | Inr u \<Rightarrow> (files s)(?tmp := None,
                                      ?md \<mapsto> written E doc [0..<length (pages doc)])))"
    using ocr_one_file_try_pure(2) [OF c2 tmp_ne_md [of E unique_name], where doc=doc and A=A
        and dn="stem (path_name pdf)" and fs=file_start] tr s2
    by (simp split: option.splits sum.splits)
  have P3: "chandra_consistent E (chandra s3)"
    using ocr_one_file_try_pure(3) [OF c2 tmp_ne_md [of E unique_name], where doc=doc and A=A
        and dn="stem (path_name pdf)" and fs=file_start] tr by simp
  have one: "ocr_one_file E pdf A s =
     (case r of
        Inr n \<Rightarrow> (Inr n, emit CloseDocument s3)
      | Inl e \<Rightarrow> (Inl e, emit CloseDocument (unlink_if_exists ?md (unlink_if_exists ?tmp s3))))"
    using nm doc t tr by (simp add: ocr_one_file_def Let_def split: sum.splits)
  show "fst (ocr_one_file E pdf A s) =
           (case file_outcome E doc of Inl e \<Rightarrow> Inl e | Inr u \<Rightarrow> Inr (int (length (pages doc))))"
    unfolding one by (simp add: P1 split: sum.splits)
  show "files (snd (ocr_one_file E pdf A s)) =
           (case file_outcome E doc of
              Inl e \<Rightarrow> (files s)(tmp_path E unique_name := None, md_path E unique_name := None)
            | Inr u \<Rightarrow> (files s)(tmp_path E unique_name := None,
                 md_path E unique_name \<mapsto> written E doc [0..<length (pages doc)]))"
    unfolding one using P1 P2
    by (auto simp: file_outcome_def split: sum.splits option.splits)
  show "chandra_consistent E (chandra (snd (ocr_one_file E pdf A s)))"
    unfolding one using P3 by (simp split: sum.splits)
qed

lemma page_step_frame:
  "p \<noteq> tmp \<Longrightarrow> files (snd (page_step E doc A dn fs tmp fut k s)) p = files s p"
  by (auto simp: page_step_def Let_def prefetch_pure split: sum.splits prod.splits)
     (metis page_markdown_files prefetch_pure(2) snd_conv state_page_progress(1))+

lemma ocr_pages_frame:
  "p \<noteq> tmp \<Longrightarrow> files (snd (ocr_pages E doc A dn fs tmp fut ks s)) p = files s p"
proof (induction ks arbitrary: fut s)
  case Nil
  show ?case by simp
next
  case (Cons k ks)
  obtain r s' where st: "page_step E doc A dn fs tmp fut k s = (r, s')"
    by (cases "page_step E doc A dn fs tmp fut k s")
  with page_step_frame [OF Cons.prems, of E doc A dn fs fut k s] have "files s' p = files s p"
    by simp
  with st Cons.IH [OF Cons.prems] show ?case by (cases r) simp_all
qed


lemma ocr_one_file_try_frame:
  assumes "p \<noteq> tmp" "p \<noteq> md"
  shows "files (snd (ocr_one_file_try E doc A dn fs md tmp s)) p = files s p"
proof (cases "forms doc")
  case (Some e)
  then show ?thesis by (simp add: ocr_one_file_try_def)
next
  case None
  define s3 where "s3 = open_write tmp (log (LogFile (a_idx A) (a_pending_len A)
        (a_done_count A + a_idx A) (a_total A) dn (int (length (pages doc)))) (emit InitForms s))"
  obtain fut s4 where sub: "submit E doc 0 s3 = (fut, s4)" by (cases "submit E doc 0 s3")
  have f4: "files s4 p = files s p"
    using sub submit_pure(2) [of E doc 0 s3] assms by (simp add: s3_def)
  obtain r s5 where lp: "ocr_pages E doc A dn fs tmp fut [0..<length (pages doc)] s4 = (r, s5)"
    by (cases "ocr_pages E doc A dn fs tmp fut [0..<length (pages doc)] s4")
  have f5: "files s5 p = files s p"
    using ocr_pages_frame [OF assms(1), of E doc A dn fs fut "[0..<length (pages doc)]" s4] lp f4
    by simp
  have "files (snd (rename tmp md (emit Shutdown s5))) p = files s p"
    using f5 assms by (simp add: rename_def split: option.splits)
  with None sub lp f5 show ?thesis
    by (auto simp: ocr_one_file_try_def s3_def [symmetric] Let_def split: sum.splits prod.splits)
qed

lemma ocr_one_file_try_success:
  assumes "ocr_one_file_try E doc A dn fs md tmp s = (Inr n, s')" "tmp \<noteq> md"
  shows "files s' tmp = None \<and> files s' md \<noteq> None \<and> n = int (length (pages doc))"
  using assms
  by (auto simp: ocr_one_file_try_def Let_def rename_def
      split: option.splits sum.splits prod.splits)

section \<open>The worked example, evaluated\<close>

lemma demo_names:
  "to_output_name demo_env demo_pdf = Inr (ascii ''a--scan'')"
  "to_output_name demo_env (ascii ''/data/empty.pdf'') = Inr (ascii ''empty'')"
  "to_output_name demo_env (ascii ''/data/torn.pdf'') = Inr (ascii ''torn'')"
  "to_output_name demo_env (ascii ''/data/bad.pdf'') = Inr (ascii ''bad'')"
  by (simp_all add: to_output_name_def demo_env_def demo_pdf_def path_parts_def ascii_def
      stem_def rfind_def replace_slash_def Let_def)

lemma demo_open:
  "open_document demo_env demo_pdf = Inr demo_document"
  "open_document demo_env (ascii ''/data/empty.pdf'') = Inr \<lparr> forms = None, pages = [] \<rparr>"
  "open_document demo_env (ascii ''/data/torn.pdf'') = Inr torn_document"
  "open_document demo_env (ascii ''/data/bad.pdf'') = Inl (Raised ''Failed to load document'')"
  by (simp_all add: demo_env_def demo_pdf_def ascii_def)

lemma state0_consistent: "chandra_consistent demo_env (chandra state0)"
  by (simp add: chandra_consistent_def state0_def)

lemma demo_gate:
  "tesseract_quality_ok demo_isalpha (replicate 60 97 @ replicate 20 224)"
  "\<not> tesseract_quality_ok demo_isalpha (replicate 75 97 @ replicate 5 224)"
  by (simp_all add: tesseract_quality_ok_def demo_counts MIN_CHARS_FOR_PAGE_def
      MIN_DIACRITICS_RATIO_value py_truediv_def Let_def round_half_even_def)

lemma demo_page_text:
  "page_text demo_env demo_document 0 = Inr (replicate 200 97, Txt)"
  "page_text demo_env demo_document (Suc 0) = Inr (replicate 60 97 @ replicate 20 224, Tess)"
  "page_text demo_env demo_document (Suc (Suc 0)) = Inr (ascii ''vlm text'', Vlm)"
  by (simp_all add: page_text_def page_unit_def selected_text_def fallback_text_def
      demo_document_def demo_env_def demo_gate NATIVE_TEXT_THRESHOLD_def alpha_count_def
      demo_alpha_97 strip_replicate demo_isspace_def)
     (simp_all add: ascii_def demo_isalpha_def)


lemma upt_3: "[0..<3] = [0, Suc 0, Suc (Suc 0)]" "[0..<2] = [0, Suc 0]"
  by (simp_all add: upt_rec)

lemma demo_shape:
  "forms demo_document = None" "length (pages demo_document) = 3"
  "forms torn_document = None" "length (pages torn_document) = 2"
  by (simp_all add: demo_document_def torn_document_def)

section \<open>Writing a file's output\<close>




section \<open>Page order\<close>

lemma collect_texts_nth:
  "collect_texts E doc ks = Inr mds \<Longrightarrow> i < length ks \<Longrightarrow>
   \<exists>tg. page_text E doc (ks ! i) = Inr (mds ! i, tg)"
proof (induction ks arbitrary: mds i)
  case Nil
  then show ?case by simp
next
  case (Cons k ks)
  from Cons.prems(1) obtain mt ms where pt: "page_text E doc k = Inr mt"
    and rest: "collect_texts E doc ks = Inr ms" and mds: "mds = fst mt # ms"
    by (auto split: sum.splits)
  show ?case
  proof (cases i)
    case 0
    with pt mds show ?thesis by (cases mt) simp
  next
    case (Suc j)
    with Cons.prems(2) have "j < length ks" by simp
    from Cons.IH [OF rest this] Suc mds show ?thesis by simp
  qed
qed

text \<open>
  C5. When the document opens, has no forms error and every page yields a text, the
  file processor returns the page count and the final path holds the page texts in the
  order of the page indices 0, 1, ..., joined by a blank line. The loop with the
  one-page-ahead future and the loop that extracts each page when its turn comes end
  the same way, with or without an exception, and leave the same files.
\<close>

theorem output_is_pages_in_order:
  assumes c: "chandra_consistent E (chandra s)"
      and nm: "to_output_name E pdf = Inr unique_name"
      and doc: "open_document E pdf = Inr doc"
      and forms: "forms doc = None"
      and mds: "collect_texts E doc [0..<length (pages doc)] = Inr mds"
      and c1: "chandra_consistent E (chandra s1)"
      and f1: "files s1 tmp = Some c0"
  shows "fst (ocr_one_file E pdf A s) = Inr (int (length (pages doc)))
       \<and> files (snd (ocr_one_file E pdf A s)) (md_path E unique_name) = Some (join_blank mds)
       \<and> length mds = length (pages doc)
       \<and> (\<forall>i<length (pages doc). \<exists>tg. page_text E doc i = Inr (mds ! i, tg))
       \<and> fst (ocr_pages E doc A dn fs tmp (fst (submit E doc 0 s1)) [0..<length (pages doc)]
                 (snd (submit E doc 0 s1)))
           = fst (ocr_pages_sequential E doc A dn fs tmp [0..<length (pages doc)] s1)
       \<and> files (snd (ocr_pages E doc A dn fs tmp (fst (submit E doc 0 s1))
                        [0..<length (pages doc)] (snd (submit E doc 0 s1))))
           = files (snd (ocr_pages_sequential E doc A dn fs tmp [0..<length (pages doc)] s1))"
proof -
  let ?n = "length (pages doc)"
  have out: "file_outcome E doc = Inr ()"
    using forms mds by (simp add: file_outcome_def loop_outcome_def)
  have w: "written E doc [0..<?n] = join_blank mds" using mds by (rule written_join_blank)
  have 1: "fst (ocr_one_file E pdf A s) = Inr (int ?n)"
    using ocr_one_file_pure(1) [OF c nm doc, of A] out by simp
  have 2: "files (snd (ocr_one_file E pdf A s)) (md_path E unique_name) = Some (join_blank mds)"
    using ocr_one_file_pure(2) [OF c nm doc, of A] out w by simp
  have 3: "length mds = ?n" using collect_texts_length [OF mds] by simp
  have 4: "\<exists>tg. page_text E doc i = Inr (mds ! i, tg)" if "i < ?n" for i
    using collect_texts_nth [OF mds, of i] that by simp
  let ?s4 = "snd (submit E doc 0 s1)"
  have c4: "chandra_consistent E (chandra ?s4)" and f4: "files ?s4 tmp = Some c0"
    using c1 f1 by (simp_all add: submit_pure)
  have fut: "0 < ?n \<Longrightarrow> fst (submit E doc 0 s1) = page_unit E doc 0"
    by (simp add: submit_pure)
  note P = ocr_pages_pure [where A=A and dn=dn and fs=fs and k=0, OF c4 _ fut f4, simplified]
  note Q = ocr_pages_sequential_pure [where doc=doc and A=A and dn=dn and fs=fs
      and ks="[0..<?n]", OF c1 f1]
  have 5: "fst (ocr_pages E doc A dn fs tmp (fst (submit E doc 0 s1)) [0..<?n] ?s4)
           = fst (ocr_pages_sequential E doc A dn fs tmp [0..<?n] s1)"
    using P Q by simp
  have 6: "files (snd (ocr_pages E doc A dn fs tmp (fst (submit E doc 0 s1)) [0..<?n] ?s4))
           = files (snd (ocr_pages_sequential E doc A dn fs tmp [0..<?n] s1))"
    using P Q by (simp add: submit_pure)
  from 1 2 3 4 5 6 show ?thesis by blast
qed

theorem output_is_pages_in_order_witness:
  "to_output_name demo_env demo_pdf = Inr (ascii ''a--scan'')
   \<and> open_document demo_env demo_pdf = Inr demo_document
   \<and> collect_texts demo_env demo_document [0..<length (pages demo_document)] =
        Inr [replicate 200 97, replicate 60 97 @ replicate 20 224, ascii ''vlm text'']
   \<and> fst (ocr_one_file demo_env demo_pdf demo_args state0) = Inr 3
   \<and> files (snd (ocr_one_file demo_env demo_pdf demo_args state0))
        (md_path demo_env (ascii ''a--scan'')) =
        Some (replicate 200 97 @ [10, 10] @ (replicate 60 97 @ replicate 20 224) @ [10, 10]
              @ ascii ''vlm text'')"
proof -
  have mds: "collect_texts demo_env demo_document [0..<length (pages demo_document)] =
        Inr [replicate 200 97, replicate 60 97 @ replicate 20 224, ascii ''vlm text'']"
    by (simp add: demo_shape upt_3 demo_page_text)
  have f: "files (open_write (ascii ''t'') state0) (ascii ''t'') = Some []" by simp
  have c: "chandra_consistent demo_env (chandra (open_write (ascii ''t'') state0))"
    using state0_consistent by simp
  from output_is_pages_in_order [OF state0_consistent demo_names(1) demo_open(1) demo_shape(1)
        mds c f, of demo_args] mds demo_names(1) demo_open(1)
  show ?thesis by (simp add: demo_shape ascii_def)
qed
section \<open>A document without pages\<close>

text \<open>
  C10. For a document that opens, has no forms error and no pages, \<open>_ocr_one_file\<close>
  returns 0; the final path then holds the empty text and the temporary path is gone;
  the events are exactly: open, init forms, log, open the temporary file, submit the
  extraction of page 0, shut the executor down, rename, free memory, close. The
  extraction of page 0 raises (there is no such page) and nobody sees it. The next
  time the orchestrator meets the file it counts it as done.
\<close>

theorem zero_page_document:
  assumes nm: "to_output_name E pdf = Inr unique_name"
      and doc: "open_document E pdf = Inr doc"
      and none: "pages doc = []"
      and forms: "forms doc = None"
  shows "fst (ocr_one_file E pdf A s) = Inr 0
       \<and> files (snd (ocr_one_file E pdf A s)) (md_path E unique_name) = Some []
       \<and> files (snd (ocr_one_file E pdf A s)) (tmp_path E unique_name) = None
       \<and> new_events s (snd (ocr_one_file E pdf A s)) =
           [OpenDocument pdf, InitForms,
            Log (LogFile (a_idx A) (a_pending_len A) (a_done_count A + a_idx A) (a_total A)
                   (stem (path_name pdf)) 0),
            OpenWrite (tmp_path E unique_name), Submit 0, Shutdown,
            Rename (tmp_path E unique_name) (md_path E unique_name), FreeMemory, CloseDocument]
       \<and> fst (render_page E doc 0 s1) = Inl (Raised ''Failed to load page.'')
       \<and> run_file E total_files pending_len pipeline_start i pdf B (snd (ocr_one_file E pdf A s)) =
           (Inr (B\<lparr>done_count := done_count B + 1\<rparr>), snd (ocr_one_file E pdf A s))"
proof -
  let ?md = "md_path E unique_name" and ?tmp = "tmp_path E unique_name"
  have ne: "?tmp \<noteq> ?md" by (rule tmp_ne_md)
  have one: "ocr_one_file E pdf A s =
     (Inr 0,
      emit CloseDocument (free_memory (emit (Rename ?tmp ?md)
        ((emit Shutdown (emit (Submit 0) (open_write ?tmp
           (log (LogFile (a_idx A) (a_pending_len A) (a_done_count A + a_idx A) (a_total A)
                   (stem (path_name pdf)) 0)
              (emit InitForms (emit (OpenDocument pdf) (snd (time_time E s))))))))
         \<lparr>files := (files s)(?tmp := None, ?md \<mapsto> [])\<rparr>))))"
    using nm doc none forms ne
    by (simp add: ocr_one_file_def ocr_one_file_try_def submit_def render_page_def rename_def
        time_time_def Let_def)
  have r: "fst (render_page E doc 0 s1) = Inl (Raised ''Failed to load page.'')"
    using none by (simp add: render_page_def)
  show ?thesis
    unfolding one using nm ne r
    by (simp add: new_events_def run_file_def emit_def log_def free_memory_def open_write_def
        time_time_def)
qed

theorem zero_page_document_witness:
  "to_output_name demo_env (ascii ''/data/empty.pdf'') = Inr (ascii ''empty'')
   \<and> open_document demo_env (ascii ''/data/empty.pdf'') = Inr \<lparr> forms = None, pages = [] \<rparr>
   \<and> fst (ocr_one_file demo_env (ascii ''/data/empty.pdf'') demo_args state0) = Inr 0
   \<and> files (snd (ocr_one_file demo_env (ascii ''/data/empty.pdf'') demo_args state0))
        (md_path demo_env (ascii ''empty'')) = Some []
   \<and> fst (render_page demo_env \<lparr> forms = None, pages = [] \<rparr> 0 state0) =
        Inl (Raised ''Failed to load page.'')"
proof -
  from zero_page_document [OF demo_names(2) demo_open(2), of demo_args state0 state0]
       demo_names(2) demo_open(2)
  show ?thesis by simp
qed


section \<open>What the monitors accept\<close>

lemma run_monitor_append:
  "run_monitor step q (a @ b) =
     (case run_monitor step q a of None \<Rightarrow> None | Some q' \<Rightarrow> run_monitor step q' b)"
  by (induction a arbitrary: q) (auto split: option.splits)

lemma follows_iff:
  "follows step q s s' q' \<longleftrightarrow>
     (\<exists>evs. trace s' = trace s @ evs \<and> run_monitor step q evs = Some q')"
  unfolding follows_def new_events_def by (metis append_eq_conv_conj)

lemma follows_refl [simp]: "follows step q s s q' \<longleftrightarrow> q' = q"
  by (auto simp: follows_iff)

lemma follows_trans:
  "follows step q s s1 q1 \<Longrightarrow> follows step q1 s1 s2 q2 \<Longrightarrow> follows step q s s2 q2"
  by (auto simp: follows_iff run_monitor_append)

lemma follows_emit:
  "follows step q s s1 q1 \<Longrightarrow> step q1 e = Some q2 \<Longrightarrow> follows step q s (emit e s1) q2"
  by (auto simp: follows_iff run_monitor_append)

lemma follows_update [simp]:
  "follows step q s (s1\<lparr>counts := c\<rparr>) q' = follows step q s s1 q'"
  "follows step q s (s1\<lparr>chandra := ch\<rparr>) q' = follows step q s s1 q'"
  "follows step q s (s1\<lparr>files := f\<rparr>) q' = follows step q s s1 q'"
  "follows step q s (s1\<lparr>status_file := st\<rparr>) q' = follows step q s s1 q'"
  "follows step q s (s1\<lparr>ticks := n\<rparr>) q' = follows step q s s1 q'"
  "follows step q (s\<lparr>counts := c\<rparr>) s1 q' = follows step q s s1 q'"
  "follows step q (s\<lparr>chandra := ch\<rparr>) s1 q' = follows step q s s1 q'"
  "follows step q (s\<lparr>files := f\<rparr>) s1 q' = follows step q s s1 q'"
  "follows step q (s\<lparr>status_file := st\<rparr>) s1 q' = follows step q s s1 q'"
  "follows step q (s\<lparr>ticks := n\<rparr>) s1 q' = follows step q s s1 q'"
  by (simp_all add: follows_def new_events_def)

lemma follows_time [simp]:
  "follows step q s (snd (time_time E s1)) q' = follows step q s s1 q'"
  "follows step q (snd (time_time E s)) s1 q' = follows step q s s1 q'"
  by (simp_all add: time_time_def)

lemma follows_log:
  "follows step q s s1 q1 \<Longrightarrow> step q1 (Log l) = Some q2 \<Longrightarrow> follows step q s (log l s1) q2"
  by (simp add: log_def follows_emit)

lemma follows_free_memory:
  "follows step q s s1 q1 \<Longrightarrow> step q1 FreeMemory = Some q2 \<Longrightarrow>
   follows step q s (free_memory s1) q2"
  by (simp add: free_memory_def follows_emit)

lemma follows_write_text:
  "follows step q s s1 q1 \<Longrightarrow> step q1 (WriteText p d) = Some q2 \<Longrightarrow>
   follows step q s (write_text p d s1) q2"
  by (simp add: write_text_def follows_emit)

lemma follows_open_write:
  "follows step q s s1 q1 \<Longrightarrow> step q1 (OpenWrite p) = Some q2 \<Longrightarrow>
   follows step q s (open_write p s1) q2"
  by (simp add: open_write_def follows_emit)

lemma follows_unlink:
  "follows step q s s1 q1 \<Longrightarrow> step q1 (Unlink p) = Some q1 \<Longrightarrow>
   follows step q s (unlink_if_exists p s1) q1"
  by (simp add: unlink_if_exists_def follows_emit)

lemma follows_rename:
  "follows step q s s1 q1 \<Longrightarrow> step q1 (Rename a b) = Some q1 \<Longrightarrow>
   follows step q s (snd (rename a b s1)) q1"
  by (simp add: rename_def follows_emit split: option.splits)

text \<open>extraction: no monitor looks at its events\<close>

lemma blind_loader [simp]: "blind_to_extraction (loader_step E)"
  by (simp add: blind_to_extraction_def)

lemma blind_tally [simp]: "blind_to_extraction tally_step"
  by (simp add: blind_to_extraction_def)

lemma render_page_follows:
  "blind_to_extraction step \<Longrightarrow> follows step q s s1 q1 \<Longrightarrow>
   follows step q s (snd (render_page E doc i s1)) q1"
  by (auto simp: render_page_def Let_def blind_to_extraction_def intro!: follows_emit
      split: sum.splits)

lemma submit_follows:
  "blind_to_extraction step \<Longrightarrow> follows step q s s1 q1 \<Longrightarrow>
   follows step q s (snd (submit E doc i s1)) q1"
  unfolding submit_def
  by (rule render_page_follows, assumption, rule follows_emit)
     (auto simp: blind_to_extraction_def)

lemma prefetch_follows:
  "blind_to_extraction step \<Longrightarrow> follows step q s s1 q1 \<Longrightarrow>
   follows step q s (snd (prefetch E doc fut k s1)) q1"
  by (simp add: prefetch_def submit_follows)

lemma tracks_same:
  "tracks E q0 s0 q s \<Longrightarrow> follows (loader_step E) q0 s0 s' q \<Longrightarrow> chandra s' = chandra s \<Longrightarrow>
   tracks E q0 s0 q s'"
  by (simp add: tracks_def)

lemma consistent_uses:
  "chandra_consistent E c \<Longrightarrow> loaded c \<Longrightarrow>
   uses_loaded_state E (model c) (processor c) (formatted_prompt c)"
  by (simp add: chandra_consistent_def uses_loaded_state_def split: sum.splits prod.splits)

lemma tracks_page_markdown:
  assumes "tracks E q0 s0 q s"
  shows "\<exists>q'. tracks E q0 s0 q' (snd (page_markdown E unit s))"
proof (cases "fst unit")
  case None
  with assms show ?thesis by (auto simp: page_markdown_def tracks_def)
next
  case (Some img)
  from assms have fol: "follows (loader_step E) q0 s0 s q" and inv: "loader_inv E q (chandra s)"
    by (simp_all add: tracks_def)
  let ?s1 = "emit (TesseractOcr img) s"
  show ?thesis
  proof (cases "image_to_string E img")
    case (Inl e)
    then have "\<not> gate_failed E img" by (simp add: gate_failed_def)
    then have "follows (loader_step E) q0 s0 ?s1 q" using fol by (simp add: follows_emit)
    with Some Inl inv show ?thesis
      by (auto simp: page_markdown_def tesseract_ocr_def tracks_def)
  next
    case (Inr t)
    show ?thesis
    proof (cases "tesseract_quality_ok (isalpha E) t")
      case True
      then have "\<not> gate_failed E img" by (simp add: gate_failed_def Inr)
      then have "follows (loader_step E) q0 s0 ?s1 q" using fol by (simp add: follows_emit)
      with Some Inr True inv show ?thesis
        by (auto simp: page_markdown_def tesseract_ocr_def tracks_def)
    next
      case False
      then have gf: "gate_failed E img" by (simp add: gate_failed_def Inr)
      define q1 where "q1 = q\<lparr>l_failures := l_failures q + 1\<rparr>"
      have f1: "follows (loader_step E) q0 s0 ?s1 q1"
        using fol gf by (simp add: follows_emit q1_def)
      have pm: "page_markdown E unit s =
        (case load_chandra E ?s1 of
           (Inl e, s2) \<Rightarrow> (Inl e, s2)
         | (Inr u, s2) \<Rightarrow>
             (case mlx_generate E (model (chandra s2)) (processor (chandra s2))
                      (formatted_prompt (chandra s2)) img of
                Inl e \<Rightarrow> (Inl e, emit (ChandraOcr (model (chandra s2)) (processor (chandra s2))
                      (formatted_prompt (chandra s2)) img) s2)
              | Inr md \<Rightarrow> (Inr (md, Vlm),
                   (emit (ChandraOcr (model (chandra s2)) (processor (chandra s2))
                      (formatted_prompt (chandra s2)) img) s2)
                   \<lparr>counts := (counts s2)\<lparr>c_vlm := c_vlm (counts s2) + 1\<rparr>\<rparr>)))"
        using Some Inr False
        by (simp add: page_markdown_def tesseract_ocr_def chandra_ocr_def
            split: prod.splits sum.splits)
      show ?thesis
      proof (cases "loaded (chandra s)")
        case True
        then have ld: "load_chandra E ?s1 = (Inr (), ?s1)" by (simp add: load_chandra_def)
        let ?ev = "ChandraOcr (model (chandra s)) (processor (chandra s))
                      (formatted_prompt (chandra s)) img"
        have "uses_loaded_state E (model (chandra s)) (processor (chandra s))
                 (formatted_prompt (chandra s))"
          using inv True by (simp add: loader_inv_def consistent_uses)
        then have "loader_step E q1 ?ev = Some q1"
          using inv True by (simp add: q1_def loader_inv_def)
        from follows_emit [OF f1 this] have f2: "follows (loader_step E) q0 s0 (emit ?ev ?s1) q1" .
        have i1: "loader_inv E q1 (chandra s)"
          using inv True by (auto simp: loader_inv_def q1_def split: if_splits)
        show ?thesis
          unfolding pm ld using f2 i1
          by (auto simp: tracks_def split: sum.splits)
      next
        case nl: False
        define q2 where "q2 = q1\<lparr>l_starts := l_starts q1 + 1\<rparr>"
        let ?s2 = "emit MlxLoad (log LogLoading ?s1)"
        have st: "loader_step E q1 MlxLoad = Some q2"
          using inv nl by (auto simp: q1_def q2_def loader_inv_def split: if_splits)
        have f2: "follows (loader_step E) q0 s0 ?s2 q2"
          by (rule follows_emit [OF follows_log [OF f1] st]) simp
        show ?thesis
        proof (cases "mlx_load E")
          case (Inl e)
          then have ld: "load_chandra E ?s1 = (Inl e, ?s2)"
            using nl by (simp add: load_chandra_def Let_def)
          have "\<not> load_succeeds E" using Inl by (simp add: load_succeeds_def)
          then have "loader_inv E q2 (chandra s)"
            using inv nl by (auto simp: loader_inv_def q1_def q2_def)
          with f2 show ?thesis unfolding pm ld by (auto simp: tracks_def)
        next
          case (Inr mp)
          obtain m pr where mp: "mp = (m, pr)" by (cases mp)
          let ?s3 = "?s2\<lparr>chandra := (chandra ?s2)\<lparr>model := Some m, processor := Some pr\<rparr>\<rparr>"
          show ?thesis
          proof (cases "mlx_chat_template E pr")
            case (Inl e)
            then have ld: "load_chandra E ?s1 = (Inl e, ?s3)"
              using nl Inr mp by (simp add: load_chandra_def Let_def)
            have "\<not> load_succeeds E" using Inl Inr mp by (simp add: load_succeeds_def)
            then have "loader_inv E q2 (chandra ?s3)"
              using inv nl
              by (auto simp: loader_inv_def q1_def q2_def chandra_consistent_def)
            with f2 show ?thesis unfolding pm ld by (auto simp: tracks_def)
          next
            case fp: (Inr fp)
            let ?s4 = "log LogLoaded (?s3\<lparr>chandra := (chandra ?s3)\<lparr>formatted_prompt := fp,
                                                        loaded := True\<rparr>\<rparr>)"
            have ld: "load_chandra E ?s1 = (Inr (), ?s4)"
              using nl Inr mp fp by (simp add: load_chandra_def Let_def)
            define q3 where "q3 = q2\<lparr>l_loaded := True, l_completions := l_completions q2 + 1\<rparr>"
            have "loader_step E q2 (Log LogLoaded) = Some q3"
              using inv nl by (simp add: q1_def q2_def q3_def loader_inv_def)
            then have f4: "follows (loader_step E) q0 s0 ?s4 q3"
              using f2 by (simp add: follows_log)
            have ok: "load_succeeds E" using Inr mp fp by (simp add: load_succeeds_def)
            have i3: "loader_inv E q3 (chandra ?s4)"
              using inv nl Inr mp fp ok
              by (auto simp: loader_inv_def q1_def q2_def q3_def chandra_consistent_def
                  split: if_splits)
            let ?ev = "ChandraOcr (model (chandra ?s4)) (processor (chandra ?s4))
                      (formatted_prompt (chandra ?s4)) img"
            have "uses_loaded_state E (model (chandra ?s4)) (processor (chandra ?s4))
                      (formatted_prompt (chandra ?s4))"
              using Inr mp fp by (simp add: uses_loaded_state_def)
            then have "loader_step E q3 ?ev = Some q3" by (simp add: q3_def)
            from follows_emit [OF f4 this]
            have f5: "follows (loader_step E) q0 s0 (emit ?ev ?s4) q3" .
            have "tracks E q0 s0 q3 (snd (page_markdown E unit s))"
              unfolding pm ld using f5 i3
              by (auto simp: tracks_def split: sum.splits)
            then show ?thesis ..
          qed
        qed
      qed
    qed
  qed
qed

lemma blind_writing_loader [simp]: "blind_to_writing (loader_step E)"
  by (simp add: blind_to_writing_def)

lemma blind_writing_tally [simp]: "blind_to_writing tally_step"
  by (simp add: blind_to_writing_def)

lemma write_page_follows:
  "blind_to_writing step \<Longrightarrow> follows step q s s1 q1 \<Longrightarrow>
   follows step q s (write_page doc tmp k md tg s1) q1"
  by (auto simp: write_page_def Let_def blind_to_writing_def
      intro!: follows_free_memory follows_log follows_write_text)

lemma save_progress_follows_loader:
  "follows (loader_step E) q s s1 q1 \<Longrightarrow> follows (loader_step E) q s (save_progress p s1) q1"
  by (simp add: save_progress_def Let_def follows_emit)

lemma length_last10: "length (last10 xs) = min 10 (length xs)"
  by (simp add: last10_def)

lemma save_progress_follows_tally:
  "follows tally_step q s s1 q1 \<Longrightarrow> length (p_recent_files p) = t_completed q1 \<Longrightarrow>
   follows tally_step q s (save_progress p s1) q1"
  by (simp add: save_progress_def Let_def follows_emit length_last10)

lemma page_progress_follows_loader:
  "follows (loader_step E') q s s1 q1 \<Longrightarrow>
   follows (loader_step E') q s (page_progress E doc A dn fs k s1) q1"
  unfolding page_progress_def Let_def
  by (cases "time_time E s1") (simp add: save_progress_follows_loader time_time_def)

lemma page_progress_follows_tally:
  "follows tally_step q s s1 q1 \<Longrightarrow> length (a_recent_files A) = t_completed q1 \<Longrightarrow>
   follows tally_step q s (page_progress E doc A dn fs k s1) q1"
  unfolding page_progress_def Let_def
  by (cases "time_time E s1") (simp add: save_progress_follows_tally time_time_def)

lemma load_chandra_follows_tally:
  "follows tally_step q s s1 q1 \<Longrightarrow> follows tally_step q s (snd (load_chandra E s1)) q1"
  by (auto simp: load_chandra_def Let_def intro!: follows_emit follows_log
      split: sum.splits prod.splits)

lemma page_markdown_follows_tally:
  assumes "follows tally_step q s s1 q1"
  shows "follows tally_step q s (snd (page_markdown E unit s1)) q1"
proof (cases "fst unit")
  case None
  with assms show ?thesis by (simp add: page_markdown_def)
next
  case (Some img)
  have 1: "follows tally_step q s (emit (TesseractOcr img) s1) q1"
    using assms by (simp add: follows_emit)
  obtain r s2 where ld: "load_chandra E (emit (TesseractOcr img) s1) = (r, s2)"
    by (cases "load_chandra E (emit (TesseractOcr img) s1)")
  with load_chandra_follows_tally [OF 1, of E] have 2: "follows tally_step q s s2 q1" by simp
  then have 3: "follows tally_step q s (emit (ChandraOcr m pr fp i) s2) q1" for m pr fp i
    by (simp add: follows_emit)
  from Some 1 2 3 ld show ?thesis
    by (auto simp: page_markdown_def tesseract_ocr_def chandra_ocr_def split: sum.splits)
qed

lemma page_step_follows_tally:
  assumes "follows tally_step q s s1 q1" "length (a_recent_files A) = t_completed q1"
  shows "follows tally_step q s (snd (page_step E doc A dn fs tmp fut k s1)) q1"
proof -
  define s2 where "s2 = page_progress E doc A dn fs k s1"
  have a: "follows tally_step q s s2 q1"
    unfolding s2_def using assms by (rule page_progress_follows_tally)
  have b: "follows tally_step q s (snd (prefetch E doc fut k s2)) q1"
    using a by (simp add: prefetch_follows)
  have c: "follows tally_step q s (snd (page_markdown E u (snd (prefetch E doc fut k s2)))) q1" for u
    using b by (rule page_markdown_follows_tally)
  have d: "follows tally_step q s
     (write_page doc tmp k md tg (snd (page_markdown E u (snd (prefetch E doc fut k s2))))) q1"
    for u md tg
    using c by (simp add: write_page_follows)
  show ?thesis
    using a c d
    by (auto simp: page_step_def s2_def [symmetric] split: sum.splits prod.splits)
       (metis snd_conv)+
qed

lemma ocr_pages_follows_tally:
  "follows tally_step q s s1 q1 \<Longrightarrow> length (a_recent_files A) = t_completed q1 \<Longrightarrow>
   follows tally_step q s (snd (ocr_pages E doc A dn fs tmp fut ks s1)) q1"
proof (induction ks arbitrary: fut s1)
  case Nil
  then show ?case by simp
next
  case (Cons k ks)
  obtain r s' where st: "page_step E doc A dn fs tmp fut k s1 = (r, s')"
    by (cases "page_step E doc A dn fs tmp fut k s1")
  from page_step_follows_tally [OF Cons.prems, of E doc dn fs tmp fut k] st
  have a: "follows tally_step q s s' q1" by simp
  show ?case
  proof (cases r)
    case (Inl e)
    with st a show ?thesis by simp
  next
    case (Inr fut')
    from Cons.IH [OF a Cons.prems(2)] st Inr show ?thesis by simp
  qed
qed

lemma tracks_identity:
  "tracks E q0 s0 q s \<Longrightarrow> (\<And>q1. follows (loader_step E) q0 s0 s q1 \<Longrightarrow>
       follows (loader_step E) q0 s0 s' q1) \<Longrightarrow> chandra s' = chandra s \<Longrightarrow>
   tracks E q0 s0 q s'"
  by (simp add: tracks_def)

lemma tracks_page_step:
  assumes "tracks E q0 s0 q s"
  shows "\<exists>q'. tracks E q0 s0 q' (snd (page_step E doc A dn fs tmp fut k s))"
proof -
  define s1 where "s1 = page_progress E doc A dn fs k s"
  have t1: "tracks E q0 s0 q s1"
    unfolding s1_def using assms
    by (rule tracks_identity) (simp_all add: page_progress_follows_loader)
  show ?thesis
  proof (cases fut)
    case (Inl e)
    with t1 show ?thesis by (auto simp: page_step_def s1_def)
  next
    case (Inr unit)
    obtain fut' s2 where pf: "prefetch E doc fut k s1 = (fut', s2)"
      by (cases "prefetch E doc fut k s1")
    have t2: "tracks E q0 s0 q s2"
      using t1 pf prefetch_follows [of "loader_step E" q0 s0 s1 _ E doc fut k]
            prefetch_pure(3) [of E doc fut k s1]
      by (auto simp: tracks_def)
    from tracks_page_markdown [OF t2, of unit]
    obtain q' where t3: "tracks E q0 s0 q' (snd (page_markdown E unit s2))" ..
    have t4: "tracks E q0 s0 q' (write_page doc tmp k md tg (snd (page_markdown E unit s2)))"
      for md tg
      using t3 by (rule tracks_identity) (simp_all add: write_page_follows)
    show ?thesis
      using Inr pf t3 t4
      by (cases "page_markdown E unit s2")
         (auto simp: page_step_def s1_def [symmetric] split: sum.splits)
  qed
qed

lemma tracks_ocr_pages:
  "tracks E q0 s0 q s \<Longrightarrow> \<exists>q'. tracks E q0 s0 q' (snd (ocr_pages E doc A dn fs tmp fut ks s))"
proof (induction ks arbitrary: fut s q)
  case Nil
  then show ?case by auto
next
  case (Cons k ks)
  obtain r s' where st: "page_step E doc A dn fs tmp fut k s = (r, s')"
    by (cases "page_step E doc A dn fs tmp fut k s")
  from tracks_page_step [OF Cons.prems, of doc A dn fs tmp fut k] st
  obtain q1 where t: "tracks E q0 s0 q1 s'" by auto
  show ?case
  proof (cases r)
    case (Inl e)
    with st t show ?thesis by auto
  next
    case (Inr fut')
    from Cons.IH [OF t] st Inr show ?thesis by simp
  qed
qed

lemma ocr_one_file_try_follows_tally:
  assumes "follows tally_step q s s1 q1" "length (a_recent_files A) = t_completed q1"
  shows "follows tally_step q s (snd (ocr_one_file_try E doc A dn fs md tmp s1)) q1"
proof (cases "forms doc")
  case (Some e)
  with assms show ?thesis by (simp add: ocr_one_file_try_def follows_emit)
next
  case None
  define s3 where "s3 = open_write tmp (log (LogFile (a_idx A) (a_pending_len A)
        (a_done_count A + a_idx A) (a_total A) dn (int (length (pages doc)))) (emit InitForms s1))"
  have a3: "follows tally_step q s s3 q1"
    unfolding s3_def using assms(1)
    by (intro follows_open_write follows_log follows_emit) simp_all
  obtain fut s4 where sub: "submit E doc 0 s3 = (fut, s4)" by (cases "submit E doc 0 s3")
  have a4: "follows tally_step q s s4 q1"
    using submit_follows [OF blind_tally a3, of E doc 0] sub by simp
  obtain r s5 where lp: "ocr_pages E doc A dn fs tmp fut [0..<length (pages doc)] s4 = (r, s5)"
    by (cases "ocr_pages E doc A dn fs tmp fut [0..<length (pages doc)] s4")
  have a5: "follows tally_step q s s5 q1"
    using ocr_pages_follows_tally [OF a4 assms(2)] lp by (metis snd_conv)
  obtain r6 s6 where rn: "rename tmp md (emit Shutdown s5) = (r6, s6)"
    by (cases "rename tmp md (emit Shutdown s5)")
  have "follows tally_step q s (snd (rename tmp md (emit Shutdown s5))) q1"
    using a5 by (intro follows_rename follows_emit) simp_all
  then have a6: "follows tally_step q s s6 q1" using rn by simp
  then have a7: "follows tally_step q s (free_memory s6) q1"
    by (rule follows_free_memory) simp
  show ?thesis
    using None sub lp rn a5 a6 a7
    by (auto simp: ocr_one_file_try_def s3_def [symmetric] Let_def split: sum.splits)
qed

lemma ocr_one_file_follows_tally:
  assumes "follows tally_step q s s1 q1" "length (a_recent_files A) = t_completed q1"
  shows "follows tally_step q s (snd (ocr_one_file E pdf A s1))
           (case to_output_name E pdf of
              Inl e \<Rightarrow> q1
            | Inr n \<Rightarrow> q1\<lparr>t_opened := t_opened q1 @ [pdf]\<rparr>)"
proof (cases "to_output_name E pdf")
  case (Inl e)
  with assms show ?thesis by (simp add: ocr_one_file_def)
next
  case (Inr unique_name)
  let ?q2 = "q1\<lparr>t_opened := t_opened q1 @ [pdf]\<rparr>"
  obtain file_start s1' where t: "time_time E s1 = (file_start, s1')" by (cases "time_time E s1")
  let ?s2 = "emit (OpenDocument pdf) s1'"
  have "follows tally_step q s s1' q1" using assms(1) t follows_time(1) [of tally_step q s E s1 q1]
    by simp
  then have a2: "follows tally_step q s ?s2 ?q2" by (rule follows_emit) simp
  have len: "length (a_recent_files A) = t_completed ?q2" using assms(2) by simp
  show ?thesis
  proof (cases "open_document E pdf")
    case (Inl e)
    with Inr t a2 show ?thesis by (simp add: ocr_one_file_def)
  next
    case doc: (Inr doc)
    let ?md = "md_path E unique_name" and ?tmp = "tmp_path E unique_name"
    obtain r s3 where tr:
      "ocr_one_file_try E doc A (stem (path_name pdf)) file_start ?md ?tmp ?s2 = (r, s3)"
      by (cases "ocr_one_file_try E doc A (stem (path_name pdf)) file_start ?md ?tmp ?s2")
    have a3: "follows tally_step q s s3 ?q2"
      using ocr_one_file_try_follows_tally [OF a2 len] tr by (metis snd_conv)
    then have a4: "follows tally_step q s (emit CloseDocument s3) ?q2"
      by (rule follows_emit) simp
    have a5: "follows tally_step q s
        (emit CloseDocument (unlink_if_exists ?md (unlink_if_exists ?tmp s3))) ?q2"
      using a3 by (intro follows_emit follows_unlink) simp_all
    show ?thesis
      using Inr doc t tr a4 a5 by (cases r) (simp_all add: ocr_one_file_def)
  qed
qed

lemma chandra_rename [simp]: "chandra (snd (rename a b s)) = chandra s"
  by (simp add: rename_def split: option.splits)

lemma tracks_ocr_one_file_try:
  assumes "tracks E q0 s0 q s"
  shows "\<exists>q'. tracks E q0 s0 q' (snd (ocr_one_file_try E doc A dn fs md tmp s))"
proof (cases "forms doc")
  case (Some e)
  have "tracks E q0 s0 q (emit InitForms s)"
    using assms by (rule tracks_identity) (simp_all add: follows_emit)
  with Some show ?thesis by (auto simp: ocr_one_file_try_def)
next
  case None
  define s3 where "s3 = open_write tmp (log (LogFile (a_idx A) (a_pending_len A)
        (a_done_count A + a_idx A) (a_total A) dn (int (length (pages doc)))) (emit InitForms s))"
  have a3: "tracks E q0 s0 q s3"
    unfolding s3_def using assms
    by (rule tracks_identity)
       (auto intro!: follows_open_write follows_log follows_emit)
  obtain fut s4 where sub: "submit E doc 0 s3 = (fut, s4)" by (cases "submit E doc 0 s3")
  have a4: "tracks E q0 s0 q s4"
    using a3 sub submit_follows [of "loader_step E" q0 s0 s3 _ E doc 0] submit_pure(3) [of E doc 0 s3]
    by (auto simp: tracks_def)
  obtain r s5 where lp: "ocr_pages E doc A dn fs tmp fut [0..<length (pages doc)] s4 = (r, s5)"
    by (cases "ocr_pages E doc A dn fs tmp fut [0..<length (pages doc)] s4")
  from tracks_ocr_pages [OF a4] lp obtain q' where a5: "tracks E q0 s0 q' s5"
    by (metis snd_conv)
  obtain r6 s6 where rn: "rename tmp md (emit Shutdown s5) = (r6, s6)"
    by (cases "rename tmp md (emit Shutdown s5)")
  have "tracks E q0 s0 q' (snd (rename tmp md (emit Shutdown s5)))"
    using a5 by (rule tracks_identity) (auto intro!: follows_rename follows_emit)
  then have a6: "tracks E q0 s0 q' s6" using rn by simp
  then have a7: "tracks E q0 s0 q' (free_memory s6)"
    by (rule tracks_identity) (auto intro!: follows_free_memory)
  show ?thesis
    using None sub lp rn a5 a6 a7
    by (auto simp: ocr_one_file_try_def s3_def [symmetric] Let_def split: sum.splits)
qed

lemma tracks_ocr_one_file:
  assumes "tracks E q0 s0 q s"
  shows "\<exists>q'. tracks E q0 s0 q' (snd (ocr_one_file E pdf A s))"
proof (cases "to_output_name E pdf")
  case (Inl e)
  with assms show ?thesis by (auto simp: ocr_one_file_def)
next
  case (Inr unique_name)
  obtain file_start s1 where t: "time_time E s = (file_start, s1)" by (cases "time_time E s")
  let ?s2 = "emit (OpenDocument pdf) s1"
  have "tracks E q0 s0 q (snd (time_time E s))"
    using assms by (rule tracks_identity) simp_all
  then have "tracks E q0 s0 q s1" using t by simp
  then have a2: "tracks E q0 s0 q ?s2"
    by (rule tracks_identity) (simp_all add: follows_emit)
  show ?thesis
  proof (cases "open_document E pdf")
    case (Inl e)
    with Inr t a2 show ?thesis by (auto simp: ocr_one_file_def)
  next
    case doc: (Inr doc)
    let ?md = "md_path E unique_name" and ?tmp = "tmp_path E unique_name"
    obtain r s3 where tr:
      "ocr_one_file_try E doc A (stem (path_name pdf)) file_start ?md ?tmp ?s2 = (r, s3)"
      by (cases "ocr_one_file_try E doc A (stem (path_name pdf)) file_start ?md ?tmp ?s2")
    from tracks_ocr_one_file_try [OF a2] tr obtain q' where a3: "tracks E q0 s0 q' s3"
      by (metis snd_conv)
    then have a4: "tracks E q0 s0 q' (emit CloseDocument s3)"
      by (rule tracks_identity) (simp_all add: follows_emit)
    have a5: "tracks E q0 s0 q'
        (emit CloseDocument (unlink_if_exists ?md (unlink_if_exists ?tmp s3)))"
      using a3 by (rule tracks_identity) (auto intro!: follows_emit follows_unlink)
    show ?thesis
      using Inr doc t tr a4 a5 by (cases r) (auto simp: ocr_one_file_def)
  qed
qed

lemma run_file_skip:
  "to_output_name E pdf = Inr n \<Longrightarrow> files s (md_path E n) \<noteq> None \<Longrightarrow>
   run_file E tf pl ps i pdf B s = (Inr (B\<lparr>done_count := done_count B + 1\<rparr>), s)"
  by (simp add: run_file_def)

lemma record_success_batch:
  "\<exists>ft el. fst (record_success E tf ps i pdf t1 np B s) =
      B\<lparr>file_times := ft,
        recent_files := recent_files B @
          [\<lparr> name = stem (path_name pdf), pages_done = np, duration = round1 el,
             per_page = round1 (el / of_int (max np 1)) \<rparr>]\<rparr>"
  by (auto simp: record_success_def Let_def split: prod.splits)

lemma record_success_state [simp]:
  "files (snd (record_success E tf ps i pdf t1 np B s)) = files s"
  "chandra (snd (record_success E tf ps i pdf t1 np B s)) = chandra s"
  "counts (snd (record_success E tf ps i pdf t1 np B s)) = counts s"
  by (simp_all add: record_success_def Let_def split: prod.splits)
     (simp_all add: time_time_def)

lemma record_success_snapshot:
  "\<exists>snap. status_file (snd (record_success E tf ps i pdf t1 np B s)) = Some snap
      \<and> j_recent_files snap = last10 (recent_files (fst (record_success E tf ps i pdf t1 np B s)))
      \<and> j_done snap = done_count B + i \<and> j_total snap = tf \<and> j_errors snap = errors B"
  by (simp add: record_success_def save_progress_def emit_def Let_def split: prod.splits)

lemma record_success_follows_tally:
  assumes "follows tally_step q0 s0 s q" "t_completed q = length (recent_files B)"
  shows "follows tally_step q0 s0 (snd (record_success E tf ps i pdf t1 np B s))
           (q\<lparr>t_completed := t_completed q + 1\<rparr>)"
proof -
  obtain t2 s3 where t2: "time_time E s = (t2, s3)" by (cases "time_time E s")
  obtain t3 s5 where t3: "time_time E (log LogFileDone s3) = (t3, s5)"
    by (cases "time_time E (log LogFileDone s3)")
  have "follows tally_step q0 s0 s3 q"
    using assms(1) t2 follows_time(1) [of tally_step q0 s0 E s q] by simp
  then have "follows tally_step q0 s0 (log LogFileDone s3) (q\<lparr>t_completed := t_completed q + 1\<rparr>)"
    by (rule follows_log) simp
  then have "follows tally_step q0 s0 s5 (q\<lparr>t_completed := t_completed q + 1\<rparr>)"
    using t3 follows_time(1) [of tally_step q0 s0 E "log LogFileDone s3"] by simp
  then show ?thesis
    using t2 t3 assms(2)
    by (simp add: record_success_def Let_def save_progress_follows_tally)
qed

lemma record_success_follows_loader:
  assumes "follows (loader_step E') q0 s0 s q"
  shows "follows (loader_step E') q0 s0 (snd (record_success E tf ps i pdf t1 np B s)) q"
proof -
  obtain t2 s3 where t2: "time_time E s = (t2, s3)" by (cases "time_time E s")
  obtain t3 s5 where t3: "time_time E (log LogFileDone s3) = (t3, s5)"
    by (cases "time_time E (log LogFileDone s3)")
  have "follows (loader_step E') q0 s0 s3 q"
    using assms(1) t2 follows_time(1) [of "loader_step E'" q0 s0 E s q] by simp
  then have "follows (loader_step E') q0 s0 (log LogFileDone s3) q"
    by (rule follows_log) simp
  then have "follows (loader_step E') q0 s0 s5 q"
    using t3 follows_time(1) [of "loader_step E'" q0 s0 E "log LogFileDone s3"] by simp
  then show ?thesis
    using t2 t3
    by (simp add: record_success_def Let_def save_progress_follows_loader)
qed

lemma run_file_attempt:
  assumes nm: "to_output_name E pdf = Inr n" and ab: "files s (md_path E n) = None"
  shows "run_file E tf pl ps i pdf B s =
     (case ocr_one_file E pdf
             \<lparr> a_done_count = done_count B, a_idx = i, a_pending_len = pl,
               a_total = tf, a_errors = errors B, a_avg = average_or_60 (file_times B),
               a_pipeline_start = ps, a_recent_files = recent_files B \<rparr>
             (snd (time_time E s)) of
        (Inr np, s2) \<Rightarrow>
          (Inr (fst (record_success E tf ps i pdf (fst (time_time E s)) np B s2)),
           snd (record_success E tf ps i pdf (fst (time_time E s)) np B s2))
      | (Inl e, s2) \<Rightarrow>
          (Inr (B\<lparr>errors := errors B + 1\<rparr>),
           free_memory (log (LogError (stem (path_name pdf)) e) s2)))"
  using nm ab
  by (simp add: run_file_def Let_def split: prod.splits sum.splits)

lemma run_file_tally:
  assumes fol: "follows tally_step q0 s0 s q" and inv: "tally_inv e0 q B"
      and nm: "to_output_name E pdf = Inr n"
  shows "\<exists>B' q'. fst (run_file E tf pl ps i pdf B s) = Inr B'
          \<and> follows tally_step q0 s0 (snd (run_file E tf pl ps i pdf B s)) q'
          \<and> tally_inv e0 q' B'
          \<and> t_opened q' = t_opened q @ (if files s (md_path E n) = None then [pdf] else [])
          \<and> done_count B' = done_count B + (if files s (md_path E n) = None then 0 else 1)"
proof (cases "files s (md_path E n) = None")
  case False
  with run_file_skip [OF nm, of s] fol inv show ?thesis
    by (auto simp: tally_inv_def)
next
  case True
  let ?A = "\<lparr> a_done_count = done_count B, a_idx = i, a_pending_len = pl,
               a_total = tf, a_errors = errors B, a_avg = average_or_60 (file_times B),
               a_pipeline_start = ps, a_recent_files = recent_files B \<rparr>"
  let ?s1 = "snd (time_time E s)"
  obtain r s2 where o: "ocr_one_file E pdf ?A ?s1 = (r, s2)" by (cases "ocr_one_file E pdf ?A ?s1")
  let ?q1 = "q\<lparr>t_opened := t_opened q @ [pdf]\<rparr>"
  have f1: "follows tally_step q0 s0 ?s1 q" using fol by simp
  have len: "length (a_recent_files ?A) = t_completed q"
    using inv by (simp add: tally_inv_def)
  have f2: "follows tally_step q0 s0 s2 ?q1"
    using ocr_one_file_follows_tally [OF f1 len, of E pdf] o nm by simp
  show ?thesis
  proof (cases r)
    case (Inl e)
    let ?q2 = "?q1\<lparr>t_errors := t_errors ?q1 + 1\<rparr>"
    have "tally_step ?q1 (Log (LogError (stem (path_name pdf)) e)) = Some ?q2" by simp
    with f2 have "follows tally_step q0 s0 (log (LogError (stem (path_name pdf)) e) s2) ?q2"
      by (rule follows_log)
    then have "follows tally_step q0 s0 (free_memory (log (LogError (stem (path_name pdf)) e) s2)) ?q2"
      by (rule follows_free_memory) simp
    with Inl o inv True show ?thesis
      unfolding run_file_attempt [OF nm True]
      by (auto simp: tally_inv_def intro!: exI [of _ ?q2])
  next
    case (Inr np)
    let ?q2 = "?q1\<lparr>t_completed := t_completed ?q1 + 1\<rparr>"
    let ?R = "record_success E tf ps i pdf (fst (time_time E s)) np B s2"
    have c: "t_completed ?q1 = length (recent_files B)" using inv by (simp add: tally_inv_def)
    from record_success_follows_tally [OF f2 c]
    have f3: "follows tally_step q0 s0 (snd ?R) ?q2" .
    from record_success_batch [of E tf ps i pdf "fst (time_time E s)" np B s2]
    obtain ft el where B': "fst ?R = B\<lparr>file_times := ft,
        recent_files := recent_files B @
          [\<lparr> name = stem (path_name pdf), pages_done = np, duration = round1 el,
             per_page = round1 (el / of_int (max np 1)) \<rparr>]\<rparr>" by blast
    from Inr o inv True f3 B' show ?thesis
      unfolding run_file_attempt [OF nm True]
      by (auto simp: tally_inv_def intro!: exI [of _ ?q2])
  qed
qed

lemma tracks_run_file:
  assumes "tracks E q0 s0 q s"
  shows "\<exists>q'. tracks E q0 s0 q' (snd (run_file E tf pl ps i pdf B s))"
proof (cases "to_output_name E pdf")
  case (Inl e)
  with assms show ?thesis by (auto simp: run_file_def)
next
  case (Inr n)
  show ?thesis
  proof (cases "files s (md_path E n) = None")
    case False
    with run_file_skip [OF Inr, of s] assms show ?thesis by auto
  next
    case True
    let ?A = "\<lparr> a_done_count = done_count B, a_idx = i, a_pending_len = pl,
               a_total = tf, a_errors = errors B, a_avg = average_or_60 (file_times B),
               a_pipeline_start = ps, a_recent_files = recent_files B \<rparr>"
    let ?s1 = "snd (time_time E s)"
    obtain r s2 where o: "ocr_one_file E pdf ?A ?s1 = (r, s2)"
      by (cases "ocr_one_file E pdf ?A ?s1")
    have "tracks E q0 s0 q ?s1" using assms by (rule tracks_identity) simp_all
    from tracks_ocr_one_file [OF this, of pdf ?A] o
    obtain q' where t2: "tracks E q0 s0 q' s2" by auto
    have a: "tracks E q0 s0 q' (free_memory (log (LogError (stem (path_name pdf)) e) s2))" for e
      using t2 by (rule tracks_identity) (auto intro!: follows_free_memory follows_log)
    have b: "tracks E q0 s0 q' (snd (record_success E tf ps i pdf t1 np B s2))" for t1 np
      using t2 by (rule tracks_identity) (simp_all add: record_success_follows_loader)
    show ?thesis
      unfolding run_file_attempt [OF Inr True] using o a b
      by (cases r) auto
  qed
qed

section \<open>The batch loop\<close>

lemma md_path_inj: "md_path E n = md_path E n' \<Longrightarrow> n = n'"
  by (simp add: md_path_def)

lemma ocr_one_file_frame:
  assumes nm: "to_output_name E pdf = Inr n" and p: "p \<noteq> tmp_path E n" "p \<noteq> md_path E n"
  shows "files (snd (ocr_one_file E pdf A s)) p = files s p"
proof -
  obtain file_start s1 where t: "time_time E s = (file_start, s1)" by (cases "time_time E s")
  let ?s2 = "emit (OpenDocument pdf) s1"
  have s2: "files ?s2 = files s" using t state_time(1) [of E s] by simp
  show ?thesis
  proof (cases "open_document E pdf")
    case (Inl e)
    with nm t s2 show ?thesis by (simp add: ocr_one_file_def Let_def)
  next
    case (Inr doc)
    obtain r s3 where tr:
      "ocr_one_file_try E doc A (stem (path_name pdf)) file_start (md_path E n) (tmp_path E n) ?s2 = (r, s3)"
      by (cases "ocr_one_file_try E doc A (stem (path_name pdf)) file_start (md_path E n) (tmp_path E n) ?s2")
    have "files s3 p = files s p"
      using ocr_one_file_try_frame [OF p, of E doc A "stem (path_name pdf)" file_start ?s2] tr s2
      by simp
    with nm Inr t tr p show ?thesis
      by (cases r) (simp_all add: ocr_one_file_def Let_def)
  qed
qed

lemma ocr_one_file_success:
  assumes nm: "to_output_name E pdf = Inr n" and ok: "fst (ocr_one_file E pdf A s) = Inr k"
  shows "files (snd (ocr_one_file E pdf A s)) (md_path E n) \<noteq> None"
proof -
  obtain file_start s1 where t: "time_time E s = (file_start, s1)" by (cases "time_time E s")
  let ?s2 = "emit (OpenDocument pdf) s1"
  show ?thesis
  proof (cases "open_document E pdf")
    case (Inl e)
    with nm t ok show ?thesis by (simp add: ocr_one_file_def Let_def)
  next
    case (Inr doc)
    obtain r s3 where tr:
      "ocr_one_file_try E doc A (stem (path_name pdf)) file_start (md_path E n) (tmp_path E n) ?s2 = (r, s3)"
      by (cases "ocr_one_file_try E doc A (stem (path_name pdf)) file_start (md_path E n) (tmp_path E n) ?s2")
    from nm Inr t tr ok have r: "r = Inr k"
      by (cases r) (simp_all add: ocr_one_file_def Let_def)
    with tr ocr_one_file_try_success [OF _ tmp_ne_md [of E n]]
    have "files s3 (md_path E n) \<noteq> None" by blast
    with nm Inr t tr r show ?thesis by (simp add: ocr_one_file_def Let_def)
  qed
qed

lemma run_file_files:
  assumes nm: "to_output_name E pdf = Inr n" and p: "p \<noteq> tmp_path E n" "p \<noteq> md_path E n"
  shows "files (snd (run_file E tf pl ps i pdf B s)) p = files s p"
proof (cases "files s (md_path E n) = None")
  case False
  with run_file_skip [OF nm, of s] show ?thesis by simp
next
  case True
  let ?A = "\<lparr> a_done_count = done_count B, a_idx = i, a_pending_len = pl,
               a_total = tf, a_errors = errors B, a_avg = average_or_60 (file_times B),
               a_pipeline_start = ps, a_recent_files = recent_files B \<rparr>"
  let ?s1 = "snd (time_time E s)"
  obtain r s2 where o: "ocr_one_file E pdf ?A ?s1 = (r, s2)" by (cases "ocr_one_file E pdf ?A ?s1")
  have "files s2 p = files s p"
    using ocr_one_file_frame [OF nm p, of ?A ?s1] o by simp
  then show ?thesis
    unfolding run_file_attempt [OF nm True] using o by (cases r) simp_all
qed

lemma run_file_artifact:
  assumes nm: "to_output_name E pdf = Inr n"
  shows "\<exists>B'. fst (run_file E tf pl ps i pdf B s) = Inr B'
          \<and> (errors B' = errors B \<or> errors B' = errors B + 1)
          \<and> (errors B' = errors B \<longrightarrow>
                files (snd (run_file E tf pl ps i pdf B s)) (md_path E n) \<noteq> None)"
proof (cases "files s (md_path E n) = None")
  case False
  with run_file_skip [OF nm, of s] show ?thesis by simp
next
  case True
  let ?A = "\<lparr> a_done_count = done_count B, a_idx = i, a_pending_len = pl,
               a_total = tf, a_errors = errors B, a_avg = average_or_60 (file_times B),
               a_pipeline_start = ps, a_recent_files = recent_files B \<rparr>"
  let ?s1 = "snd (time_time E s)"
  obtain r s2 where o: "ocr_one_file E pdf ?A ?s1 = (r, s2)" by (cases "ocr_one_file E pdf ?A ?s1")
  show ?thesis
  proof (cases r)
    case (Inl e)
    with o show ?thesis unfolding run_file_attempt [OF nm True] by simp
  next
    case (Inr np)
    with o have "fst (ocr_one_file E pdf ?A ?s1) = Inr np" by simp
    from ocr_one_file_success [OF nm this] o have m: "files s2 (md_path E n) \<noteq> None" by simp
    from record_success_batch [of E tf ps i pdf "fst (time_time E s)" np B s2]
    obtain ft el where B': "fst (record_success E tf ps i pdf (fst (time_time E s)) np B s2) =
        B\<lparr>file_times := ft,
        recent_files := recent_files B @
          [\<lparr> name = stem (path_name pdf), pages_done = np, duration = round1 el,
             per_page = round1 (el / of_int (max np 1)) \<rparr>]\<rparr>" by blast
    from Inr o m B' show ?thesis unfolding run_file_attempt [OF nm True] by simp
  qed
qed

lemma tally_step_observed:
  "tally_step q a = Some q1 \<Longrightarrow>
     t_opened q1 = t_opened q @ opened_files [a]
   \<and> t_errors q1 = t_errors q + error_count [a]
   \<and> t_completed q1 = t_completed q + completed_count [a]"
  by (cases "(q, a)" rule: tally_step.cases)
     (auto simp: error_count_def completed_count_def split: if_splits)

lemma opened_files_append [simp]: "opened_files (a @ b) = opened_files a @ opened_files b"
  by (induction a rule: opened_files.induct) simp_all

lemma count_append [simp]:
  "error_count (a @ b) = error_count a + error_count b"
  "completed_count (a @ b) = completed_count a + completed_count b"
  "load_count (a @ b) = load_count a + load_count b"
  "loaded_count (a @ b) = loaded_count a + loaded_count b"
  "gate_failure_count E (a @ b) = gate_failure_count E a + gate_failure_count E b"
  by (simp_all add: error_count_def completed_count_def load_count_def loaded_count_def
      gate_failure_count_def)

lemma tally_observed:
  "run_monitor tally_step q evs = Some q' \<Longrightarrow>
     t_opened q' = t_opened q @ opened_files evs
   \<and> t_errors q' = t_errors q + error_count evs
   \<and> t_completed q' = t_completed q + completed_count evs"
proof (induction evs arbitrary: q)
  case Nil
  then show ?case by (simp add: error_count_def completed_count_def)
next
  case (Cons a evs)
  then obtain q1 where a: "tally_step q a = Some q1" and r: "run_monitor tally_step q1 evs = Some q'"
    by (auto split: option.splits)
  from tally_step_observed [OF a] Cons.IH [OF r]
  have "t_opened q' = t_opened q @ opened_files ([a] @ evs)
      \<and> t_errors q' = t_errors q + error_count ([a] @ evs)
      \<and> t_completed q' = t_completed q + completed_count ([a] @ evs)"
    unfolding opened_files_append count_append by simp
  then show ?case by simp
qed


lemma loader_step_observed:
  "loader_step E q a = Some q1 \<Longrightarrow>
     l_failures q1 = l_failures q + gate_failure_count E [a]
   \<and> l_starts q1 = l_starts q + load_count [a]
   \<and> l_completions q1 = l_completions q + loaded_count [a]"
  by (cases "(E, q, a)" rule: loader_step.cases)
     (auto simp: gate_failure_count_def load_count_def loaded_count_def split: if_splits)

lemma loader_observed:
  "run_monitor (loader_step E) q evs = Some q' \<Longrightarrow>
     l_failures q' = l_failures q + gate_failure_count E evs
   \<and> l_starts q' = l_starts q + load_count evs
   \<and> l_completions q' = l_completions q + loaded_count evs"
proof (induction evs arbitrary: q)
  case Nil
  then show ?case by (simp add: gate_failure_count_def load_count_def loaded_count_def)
next
  case (Cons a evs)
  then obtain q1 where a: "loader_step E q a = Some q1"
    and r: "run_monitor (loader_step E) q1 evs = Some q'"
    by (auto split: option.splits)
  from loader_step_observed [OF a] Cons.IH [OF r]
  have "l_failures q' = l_failures q + gate_failure_count E ([a] @ evs)
      \<and> l_starts q' = l_starts q + load_count ([a] @ evs)
      \<and> l_completions q' = l_completions q + loaded_count ([a] @ evs)"
    unfolding count_append by simp
  then show ?case by simp
qed

lemma loader_step_loaded:
  "loader_step E q a = Some q1 \<Longrightarrow> l_loaded q1 = (l_loaded q \<or> 0 < loaded_count [a])"
  by (cases "(E, q, a)" rule: loader_step.cases)
     (auto simp: loaded_count_def split: if_splits)

lemma loader_loaded:
  "run_monitor (loader_step E) q evs = Some q' \<Longrightarrow>
     l_loaded q' = (l_loaded q \<or> 0 < loaded_count evs)"
proof (induction evs arbitrary: q)
  case Nil
  then show ?case by (simp add: loaded_count_def)
next
  case (Cons a evs)
  then obtain q1 where a: "loader_step E q a = Some q1"
    and r: "run_monitor (loader_step E) q1 evs = Some q'"
    by (auto split: option.splits)
  from loader_step_loaded [OF a] Cons.IH [OF r]
  have "l_loaded q' = (l_loaded q \<or> 0 < loaded_count ([a] @ evs))"
    unfolding count_append by auto
  then show ?case by simp
qed

lemma loader_at_load:
  assumes "run_monitor (loader_step E) q (pre @ MlxLoad # post) = Some q'"
  shows "\<not> l_loaded q \<and> loaded_count pre = 0
       \<and> l_starts q + load_count pre < l_failures q + gate_failure_count E pre
       \<and> (load_succeeds E \<longrightarrow> l_failures q + gate_failure_count E pre = 1)"
proof -
  from assms obtain q1 where p: "run_monitor (loader_step E) q pre = Some q1"
    and s: "loader_step E q1 MlxLoad \<noteq> None"
    by (auto simp: run_monitor_append split: option.splits)
  from s have "\<not> l_loaded q1 \<and> l_starts q1 < l_failures q1
      \<and> (load_succeeds E \<longrightarrow> l_failures q1 = 1)"
    by (auto split: if_splits)
  with loader_observed [OF p] loader_loaded [OF p] show ?thesis by auto
qed

lemma loader_at_fallback:
  assumes "run_monitor (loader_step E) q (pre @ ChandraOcr m pr fp img # post) = Some q'"
  shows "(l_loaded q \<or> 0 < loaded_count pre) \<and> uses_loaded_state E m pr fp"
proof -
  from assms obtain q1 where p: "run_monitor (loader_step E) q pre = Some q1"
    and s: "loader_step E q1 (ChandraOcr m pr fp img) \<noteq> None"
    by (auto simp: run_monitor_append split: option.splits)
  from s have "l_loaded q1 \<and> uses_loaded_state E m pr fp" by (auto split: if_splits)
  with loader_loaded [OF p] show ?thesis by auto
qed

lemma name_okD: "name_ok E pdf \<Longrightarrow> \<exists>n. to_output_name E pdf = Inr n"
  by (cases "to_output_name E pdf") (simp_all add: name_ok_def)

lemma artifact_exists_iff:
  "to_output_name E pdf = Inr n \<Longrightarrow> artifact_exists E s pdf = (files s (md_path E n) \<noteq> None)"
  by (simp add: artifact_exists_def)

lemma record_success_counters [simp]:
  "done_count (fst (record_success E tf ps i pdf t1 np B s)) = done_count B"
  "errors (fst (record_success E tf ps i pdf t1 np B s)) = errors B"
  by (simp_all add: record_success_def Let_def split: prod.splits)

lemma run_pending_tally:
  assumes "follows tally_step q0 s0 s q" "tally_inv e0 q B" "\<forall>pdf\<in>set pending. name_ok E pdf"
  shows "\<exists>B' q' att. fst (run_pending E tf pl ps i pending B s) = Inr B'
          \<and> follows tally_step q0 s0 (snd (run_pending E tf pl ps i pending B s)) q'
          \<and> tally_inv e0 q' B'
          \<and> t_opened q' = t_opened q @ att \<and> subseq att pending
          \<and> done_count B' = done_count B + int (length pending) - int (length att)"
  using assms
proof (induction pending arbitrary: i B s q)
  case Nil
  then show ?case by auto
next
  case (Cons pdf rest)
  from Cons.prems(3) have "name_ok E pdf" by simp
  then obtain n where nm: "to_output_name E pdf = Inr n" using name_okD by blast
  obtain r s1 where rf: "run_file E tf pl ps i pdf B s = (r, s1)"
    by (cases "run_file E tf pl ps i pdf B s")
  from run_file_tally [OF Cons.prems(1,2) nm, of tf pl ps i] rf
  obtain B1 q1 where r: "r = Inr B1" and f1: "follows tally_step q0 s0 s1 q1"
    and i1: "tally_inv e0 q1 B1"
    and o1: "t_opened q1 = t_opened q @ (if files s (md_path E n) = None then [pdf] else [])"
    and d1: "done_count B1 = done_count B + (if files s (md_path E n) = None then 0 else 1)"
    by auto
  from Cons.prems(3) have rest: "\<forall>pdf\<in>set rest. name_ok E pdf" by simp
  from Cons.IH [OF f1 i1 rest, of "i + 1"]
  obtain B' q' att where
        a: "fst (run_pending E tf pl ps (i + 1) rest B1 s1) = Inr B'"
    and b: "follows tally_step q0 s0 (snd (run_pending E tf pl ps (i + 1) rest B1 s1)) q'"
    and c: "tally_inv e0 q' B'"
    and d: "t_opened q' = t_opened q1 @ att" and e: "subseq att rest"
    and f: "done_count B' = done_count B1 + int (length rest) - int (length att)"
    by blast
  let ?att = "(if files s (md_path E n) = None then [pdf] else []) @ att"
  have "subseq ?att (pdf # rest)" using e by (auto intro: list_emb_Cons)
  moreover have "t_opened q' = t_opened q @ ?att" using d o1 by simp
  moreover have "done_count B' = done_count B + int (length (pdf # rest)) - int (length ?att)"
    using f d1 by simp
  ultimately show ?case using rf r a b c by (intro exI [of _ B'] exI [of _ q'] exI [of _ ?att]) simp
qed

lemma run_pending_no_skip:
  assumes "\<forall>pdf\<in>set pending. name_ok E pdf"
      and "distinct (map (to_output_name E) pending)"
      and "\<forall>pdf\<in>set pending. \<not> artifact_exists E s pdf"
      and "fst (run_pending E tf pl ps i pending B s) = Inr B'"
  shows "done_count B' = done_count B"
  using assms
proof (induction pending arbitrary: i B s)
  case Nil
  then show ?case by simp
next
  case (Cons pdf rest)
  from Cons.prems(1) have "name_ok E pdf" by simp
  then obtain n where nm: "to_output_name E pdf = Inr n" using name_okD by blast
  from Cons.prems(3) have "\<not> artifact_exists E s pdf" by simp
  then have ab: "files s (md_path E n) = None" by (simp add: artifact_exists_iff [OF nm])
  obtain r s1 where rf: "run_file E tf pl ps i pdf B s = (r, s1)"
    by (cases "run_file E tf pl ps i pdf B s")
  have fol: "follows tally_step tally0 s s tally0" by simp
  have inv: "tally_inv (errors B) (tally0\<lparr>t_completed := length (recent_files B)\<rparr>) B"
    by (simp add: tally_inv_def tally0_def)
  from run_file_artifact [OF nm, of tf pl ps i B s] rf
  obtain B1 where r: "r = Inr B1" by auto
  have d1: "done_count B1 = done_count B"
  proof -
    let ?A = "\<lparr> a_done_count = done_count B, a_idx = i, a_pending_len = pl,
               a_total = tf, a_errors = errors B, a_avg = average_or_60 (file_times B),
               a_pipeline_start = ps, a_recent_files = recent_files B \<rparr>"
    obtain r2 s2 where o: "ocr_one_file E pdf ?A (snd (time_time E s)) = (r2, s2)"
      by (cases "ocr_one_file E pdf ?A (snd (time_time E s))")
    show ?thesis
    proof (cases r2)
      case (Inl e)
      with rf r o show ?thesis unfolding run_file_attempt [OF nm ab] by auto
    next
      case (Inr np)
      with rf r o show ?thesis unfolding run_file_attempt [OF nm ab] by auto
    qed
  qed
  have rest_absent: "\<forall>pdf'\<in>set rest. \<not> artifact_exists E s1 pdf'"
  proof
    fix pdf' assume in_rest: "pdf' \<in> set rest"
    with Cons.prems(1) have "name_ok E pdf'" by simp
    then obtain n' where nm': "to_output_name E pdf' = Inr n'" using name_okD by blast
    from Cons.prems(2) in_rest have "to_output_name E pdf' \<noteq> to_output_name E pdf"
      by (metis distinct.simps(2) image_eqI list.simps(9) set_map)
    with nm nm' have ne: "n' \<noteq> n" by auto
    then have p1: "md_path E n' \<noteq> md_path E n" using md_path_inj by blast
    have p2: "md_path E n' \<noteq> tmp_path E n" using tmp_ne_md' [of E n n'] by auto
    from run_file_files [OF nm p2 p1, of tf pl ps i B s] rf
    have "files s1 (md_path E n') = files s (md_path E n')" by simp
    moreover from Cons.prems(3) in_rest have "\<not> artifact_exists E s pdf'" by simp
    ultimately show "\<not> artifact_exists E s1 pdf'"
      by (simp add: artifact_exists_iff [OF nm'])
  qed
  from Cons.prems(4) rf r
  have "fst (run_pending E tf pl ps (i + 1) rest B1 s1) = Inr B'" by simp
  from Cons.IH [OF _ _ rest_absent this] Cons.prems(1,2) d1 show ?case by simp
qed

lemma run_pending_artifacts:
  assumes "\<forall>pdf\<in>set pending. name_ok E pdf"
      and "fst (run_pending E tf pl ps i pending B s) = Inr B'"
  shows "errors B \<le> errors B'
       \<and> (errors B' = errors B \<longrightarrow>
            (\<forall>pdf. artifact_exists E s pdf \<longrightarrow>
                   artifact_exists E (snd (run_pending E tf pl ps i pending B s)) pdf)
          \<and> (\<forall>pdf\<in>set pending. artifact_exists E (snd (run_pending E tf pl ps i pending B s)) pdf))"
  using assms
proof (induction pending arbitrary: i B s)
  case Nil
  then show ?case by simp
next
  case (Cons pdf rest)
  from Cons.prems(1) have "name_ok E pdf" by simp
  then obtain n where nm: "to_output_name E pdf = Inr n" using name_okD by blast
  obtain r s1 where rf: "run_file E tf pl ps i pdf B s = (r, s1)"
    by (cases "run_file E tf pl ps i pdf B s")
  from run_file_artifact [OF nm, of tf pl ps i B s] rf
  obtain B1 where r: "r = Inr B1" and e1: "errors B1 = errors B \<or> errors B1 = errors B + 1"
    and a1: "errors B1 = errors B \<longrightarrow> files s1 (md_path E n) \<noteq> None"
    by auto
  from Cons.prems(2) rf r
  have run: "run_pending E tf pl ps i (pdf # rest) B s = run_pending E tf pl ps (i + 1) rest B1 s1"
    and res: "fst (run_pending E tf pl ps (i + 1) rest B1 s1) = Inr B'" by simp_all
  let ?s' = "snd (run_pending E tf pl ps (i + 1) rest B1 s1)"
  from Cons.IH [OF _ res] Cons.prems(1)
  have le: "errors B1 \<le> errors B'"
    and ih: "errors B' = errors B1 \<Longrightarrow>
         (\<forall>pdf. artifact_exists E s1 pdf \<longrightarrow> artifact_exists E ?s' pdf)
       \<and> (\<forall>pdf\<in>set rest. artifact_exists E ?s' pdf)"
    by simp_all
  have "errors B \<le> errors B'" using le e1 by auto
  moreover have "(\<forall>pdf'. artifact_exists E s pdf' \<longrightarrow> artifact_exists E ?s' pdf')
       \<and> (\<forall>pdf'\<in>set (pdf # rest). artifact_exists E ?s' pdf')" if eq: "errors B' = errors B"
  proof -
    from eq le e1 have eq1: "errors B1 = errors B" and eq2: "errors B' = errors B1" by auto
    have kept1: "artifact_exists E s1 pdf'" if ex: "artifact_exists E s pdf'" for pdf'
    proof -
      from ex obtain n' where nm': "to_output_name E pdf' = Inr n'"
        and f: "files s (md_path E n') \<noteq> None"
        by (auto simp: artifact_exists_def split: sum.splits)
      show ?thesis
      proof (cases "n' = n")
        case True
        with a1 eq1 nm' show ?thesis by (simp add: artifact_exists_def)
      next
        case False
        then have p1: "md_path E n' \<noteq> md_path E n" using md_path_inj by blast
        have p2: "md_path E n' \<noteq> tmp_path E n" using tmp_ne_md' [of E n n'] by auto
        from run_file_files [OF nm p2 p1, of tf pl ps i B s] rf f nm'
        show ?thesis by (simp add: artifact_exists_def)
      qed
    qed
    have here: "artifact_exists E s1 pdf" using a1 eq1 nm by (simp add: artifact_exists_def)
    from ih [OF eq2] kept1 here show ?thesis by auto
  qed
  ultimately show ?case unfolding run by blast
qed

lemma tracks_run_pending:
  assumes "tracks E q0 s0 q s"
  shows "\<exists>q'. tracks E q0 s0 q' (snd (run_pending E tf pl ps i pending B s))"
  using assms
proof (induction pending arbitrary: i B s q)
  case Nil
  then show ?case by auto
next
  case (Cons pdf rest)
  obtain r s1 where rf: "run_file E tf pl ps i pdf B s = (r, s1)"
    by (cases "run_file E tf pl ps i pdf B s")
  from tracks_run_file [OF Cons.prems, of tf pl ps i pdf B] rf
  obtain q1 where t1: "tracks E q0 s0 q1 s1" by auto
  show ?case
  proof (cases r)
    case (Inl e)
    with rf t1 show ?thesis by auto
  next
    case (Inr B1)
    from Cons.IH [OF t1, of "i + 1" B1] rf Inr show ?thesis by simp
  qed
qed

lemma partition_files_ok:
  "\<forall>pdf\<in>set fl. name_ok E pdf \<Longrightarrow>
   partition_files E s fl acc =
     Inr (fst acc + int (length (filter (artifact_exists E s) fl)),
          snd acc @ filter (\<lambda>pdf. \<not> artifact_exists E s pdf) fl)"
proof (induction fl arbitrary: acc)
  case Nil
  then show ?case by simp
next
  case (Cons pdf rest)
  from Cons.prems have "name_ok E pdf" by simp
  then obtain n where nm: "to_output_name E pdf = Inr n" using name_okD by blast
  from Cons.prems have rest: "\<forall>pdf\<in>set rest. name_ok E pdf" by simp
  show ?case
    using nm Cons.IH [OF rest] by (simp add: artifact_exists_def)
qed

lemma partition_files_names:
  "partition_files E s fl acc = Inr r \<Longrightarrow> \<forall>pdf\<in>set fl. name_ok E pdf"
proof (induction fl arbitrary: acc)
  case Nil
  then show ?case by simp
next
  case (Cons pdf rest)
  from Cons.prems obtain n where nm: "to_output_name E pdf = Inr n"
    by (auto split: sum.splits)
  from Cons.prems nm obtain acc' where "partition_files E s rest acc' = Inr r"
    by (auto split: if_splits)
  from Cons.IH [OF this] nm show ?case by (simp add: name_ok_def)
qed

lemma artifact_exists_files:
  "files s' = files s \<Longrightarrow> artifact_exists E s' pdf = artifact_exists E s pdf"
  by (cases "to_output_name E pdf") (simp_all add: artifact_exists_def)

lemma follows_new_events:
  "follows step q s s' q' \<Longrightarrow> run_monitor step q (new_events s s') = Some q'"
  by (simp add: follows_def)

lemma run_ocr_invalid:
  assumes "\<not> (\<forall>pdf\<in>set (scanned @ mixed). name_ok E pdf)"
  shows "\<exists>e. run_ocr E scanned mixed s = (Inl e, s)"
proof (cases "partition_files E s (scanned @ mixed) (0, [])")
  case (Inl e)
  then show ?thesis by (simp add: run_ocr_def)
next
  case (Inr r)
  from partition_files_names [OF this] assms show ?thesis by blast
qed

lemma run_ocr_nothing:
  assumes "\<forall>pdf\<in>set (scanned @ mixed). name_ok E pdf"
      and "\<forall>pdf\<in>set (scanned @ mixed). artifact_exists E s pdf"
  shows "run_ocr E scanned mixed s =
     (Inr (),
      save_progress
        \<lparr> p_done = int (length (scanned @ mixed)), p_total = int (length (scanned @ mixed)),
          p_errors = 0, p_current_file = ascii ''-'', p_current_page = Dash,
          p_current_pages_total = 0, p_current_file_started = 0,
          p_elapsed = 0, p_avg_per_file = 0, p_recent_files = [] \<rparr>
        (log LogNothing
           (log (LogTotals (int (length (scanned @ mixed))) (int (length (scanned @ mixed))) 0) s)))"
proof -
  from assms(2) have "filter (\<lambda>pdf. \<not> artifact_exists E s pdf) (scanned @ mixed) = []"
    and "filter (artifact_exists E s) (scanned @ mixed) = scanned @ mixed"
    by (simp_all del: filter_append set_append)
  with partition_files_ok [OF assms(1), of s "(0, [])"]
  have "partition_files E s (scanned @ mixed) (0, []) = Inr (int (length (scanned @ mixed)), [])"
    by (simp del: filter_append)
  then show ?thesis by (simp add: run_ocr_def Let_def)
qed

lemma run_ocr_loop:
  assumes "\<forall>pdf\<in>set (scanned @ mixed). name_ok E pdf"
      and "filter (\<lambda>pdf. \<not> artifact_exists E s pdf) (scanned @ mixed) \<noteq> []"
  shows "run_ocr E scanned mixed s =
     (let fl = scanned @ mixed;
          pending = filter (\<lambda>pdf. \<not> artifact_exists E s pdf) fl;
          done0 = int (length (filter (artifact_exists E s) fl));
          s3 = loop_start E (int (length fl)) done0 (int (length pending)) s
      in case run_pending E (int (length fl)) (int (length pending)) (fst (time_time E s3)) 1 pending
                \<lparr> done_count = done0, errors = 0, file_times = [], recent_files = [] \<rparr>
                (snd (time_time E s3)) of
           (Inl e, s5) \<Rightarrow> (Inl e, s5)
         | (Inr B, s5) \<Rightarrow> (Inr (), finish E (int (length pending)) B s5))"
proof -
  from partition_files_ok [OF assms(1), of s "(0, [])"]
  have "partition_files E s (scanned @ mixed) (0, []) =
      Inr (int (length (filter (artifact_exists E s) (scanned @ mixed))),
           filter (\<lambda>pdf. \<not> artifact_exists E s pdf) (scanned @ mixed))"
    by (simp del: filter_append)
  with assms(2) show ?thesis
    by (simp add: run_ocr_def Let_def loop_start_def finish_def fresh_chandra_def time_time_def
        del: filter_append split: prod.splits sum.splits)
qed

lemma follows_log_same:
  "follows step q s s1 q1 \<Longrightarrow> step q1 (Log l) = Some q1 \<Longrightarrow> follows step q s (log l s1) q1"
  by (rule follows_log)

lemma follows_loop_start:
  "follows tally_step tally0 s (snd (time_time E (loop_start E tf d pl s))) tally0"
  "follows (loader_step E') loader0 s (snd (time_time E (loop_start E tf d pl s))) loader0"
proof -
  have "follows tally_step tally0 s (log (LogTotals tf d pl) s) tally0"
    by (rule follows_log_same) simp_all
  then have "follows tally_step tally0 s (loop_start E tf d pl s) tally0"
    unfolding loop_start_def by (intro follows_log_same) simp_all
  then show "follows tally_step tally0 s (snd (time_time E (loop_start E tf d pl s))) tally0"
    by simp
  have "follows (loader_step E') loader0 s (log (LogTotals tf d pl) s) loader0"
    by (rule follows_log_same) simp_all
  then have "follows (loader_step E') loader0 s (loop_start E tf d pl s) loader0"
    unfolding loop_start_def by (intro follows_log_same) simp_all
  then show "follows (loader_step E') loader0 s (snd (time_time E (loop_start E tf d pl s))) loader0"
    by simp
qed

lemma follows_finish:
  "follows tally_step q0 s s5 q \<Longrightarrow> follows tally_step q0 s (finish E pl B s5) q"
  "follows (loader_step E') l0 s s5 l \<Longrightarrow> follows (loader_step E') l0 s (finish E pl B s5) l"
  unfolding finish_def Let_def
  by (intro follows_log_same; simp)+

lemma loop_start_state [simp]:
  "files (snd (time_time E (loop_start E tf d pl s))) = files s"
  "chandra (snd (time_time E (loop_start E tf d pl s))) = fresh_chandra"
  by (simp_all add: loop_start_def time_time_def)

lemma finish_state [simp]:
  "files (finish E pl B s5) = files s5"
  "status_file (finish E pl B s5) = status_file s5"
  by (simp_all add: finish_def Let_def time_time_def log_def emit_def)


lemma run_ocr_loader:
  "\<exists>q. follows (loader_step E) loader0 s (snd (run_ocr E scanned mixed s)) q
      \<and> l_starts q \<le> l_failures q \<and> l_completions q \<le> 1
      \<and> (load_succeeds E \<longrightarrow> l_starts q \<le> 1)"
proof (cases "\<forall>pdf\<in>set (scanned @ mixed). name_ok E pdf")
  case False
  from run_ocr_invalid [OF this, of s] show ?thesis
    by (intro exI [of _ loader0]) (auto simp: loader0_def)
next
  case names: True
  let ?fl = "scanned @ mixed"
  let ?pending = "filter (\<lambda>pdf. \<not> artifact_exists E s pdf) ?fl"
  show ?thesis
  proof (cases "?pending = []")
    case True
    then have all: "\<forall>pdf\<in>set ?fl. artifact_exists E s pdf"
      by (simp add: filter_empty_conv del: filter_append set_append)
    have "follows (loader_step E) loader0 s
        (save_progress
        \<lparr> p_done = int (length ?fl), p_total = int (length ?fl),
          p_errors = 0, p_current_file = ascii ''-'', p_current_page = Dash,
          p_current_pages_total = 0, p_current_file_started = 0,
          p_elapsed = 0, p_avg_per_file = 0, p_recent_files = [] \<rparr>
        (log LogNothing (log (LogTotals (int (length ?fl)) (int (length ?fl)) 0) s))) loader0"
      by (intro save_progress_follows_loader follows_log_same) simp_all
    then show ?thesis
      unfolding run_ocr_nothing [OF names all]
      by (intro exI [of _ loader0]) (simp add: loader0_def)
  next
    case False
    let ?done0 = "int (length (filter (artifact_exists E s) ?fl))"
    let ?s3 = "loop_start E (int (length ?fl)) ?done0 (int (length ?pending)) s"
    let ?B0 = "\<lparr> done_count = ?done0, errors = 0, file_times = [], recent_files = [] \<rparr>"
    let ?run = "run_pending E (int (length ?fl)) (int (length ?pending)) (fst (time_time E ?s3)) 1
                  ?pending ?B0 (snd (time_time E ?s3))"
    have "loader_inv E loader0 fresh_chandra"
      by (simp add: loader_inv_def loader0_def fresh_chandra_def chandra_consistent_def)
    then have t0: "tracks E loader0 s loader0 (snd (time_time E ?s3))"
      unfolding tracks_def loop_start_state using follows_loop_start(2) by blast
    have "\<exists>q'. tracks E loader0 s q' (snd ?run)" by (rule tracks_run_pending [OF t0])
    then obtain q' where t: "tracks E loader0 s q' (snd ?run)" by blast
    then have f: "follows (loader_step E) loader0 s (snd ?run) q'"
      and i: "loader_inv E q' (chandra (snd ?run))" by (simp_all add: tracks_def)
    from i have c: "l_starts q' \<le> l_failures q' \<and> l_completions q' \<le> 1
        \<and> (load_succeeds E \<longrightarrow> l_starts q' \<le> 1)"
      by (auto simp: loader_inv_def split: if_splits)
    obtain r s5 where run: "?run = (r, s5)" by (cases ?run)
    from f run have "follows (loader_step E) loader0 s (finish E (int (length ?pending)) B' s5) q'" for B'
      by (simp add: follows_finish)
    with c f run show ?thesis
      unfolding run_ocr_loop [OF names False]
      by (cases r) (auto simp: Let_def intro!: exI [of _ q'])
  qed
qed

lemma run_ocr_returns:
  assumes names: "\<forall>pdf\<in>set (scanned @ mixed). name_ok E pdf"
  shows "fst (run_ocr E scanned mixed s) = Inr ()"
proof -
  let ?fl = "scanned @ mixed"
  let ?pending = "filter (\<lambda>pdf. \<not> artifact_exists E s pdf) ?fl"
  show ?thesis
  proof (cases "?pending = []")
    case True
    then have all: "\<forall>pdf\<in>set ?fl. artifact_exists E s pdf"
      by (simp add: filter_empty_conv del: filter_append set_append)
    show ?thesis unfolding run_ocr_nothing [OF names all] by simp
  next
    case False
    let ?done0 = "int (length (filter (artifact_exists E s) ?fl))"
    let ?s3 = "loop_start E (int (length ?fl)) ?done0 (int (length ?pending)) s"
    let ?B0 = "\<lparr> done_count = ?done0, errors = 0, file_times = [], recent_files = [] \<rparr>"
    let ?run = "run_pending E (int (length ?fl)) (int (length ?pending)) (fst (time_time E ?s3)) 1
                  ?pending ?B0 (snd (time_time E ?s3))"
    have inv: "tally_inv 0 tally0 ?B0" by (simp add: tally_inv_def tally0_def)
    have pn: "\<forall>pdf\<in>set ?pending. name_ok E pdf" using names by auto
    have "\<exists>B' q' att. fst ?run = Inr B'
          \<and> follows tally_step tally0 s (snd ?run) q'
          \<and> tally_inv 0 q' B'
          \<and> t_opened q' = t_opened tally0 @ att \<and> subseq att ?pending
          \<and> done_count B' = done_count ?B0 + int (length ?pending) - int (length att)"
      by (rule run_pending_tally [OF follows_loop_start(1) inv pn])
    then obtain B' where r: "fst ?run = Inr B'" by blast
    obtain s5 where run: "?run = (Inr B', s5)" using r by (cases ?run) simp
    show ?thesis unfolding run_ocr_loop [OF names False] using run by (simp add: Let_def)
  qed
qed

lemma run_ocr_no_error_artifacts:
  assumes names: "\<forall>pdf\<in>set (scanned @ mixed). name_ok E pdf"
      and quiet: "error_count (new_events s (snd (run_ocr E scanned mixed s))) = 0"
  shows "\<forall>pdf\<in>set (scanned @ mixed). artifact_exists E (snd (run_ocr E scanned mixed s)) pdf"
proof -
  let ?fl = "scanned @ mixed"
  let ?pending = "filter (\<lambda>pdf. \<not> artifact_exists E s pdf) ?fl"
  show ?thesis
  proof (cases "?pending = []")
    case True
    then have all: "\<forall>pdf\<in>set ?fl. artifact_exists E s pdf"
      by (simp add: filter_empty_conv del: filter_append set_append)
    have "files (snd (run_ocr E scanned mixed s)) = files s"
      unfolding run_ocr_nothing [OF names all] by simp
    from artifact_exists_files [OF this] all show ?thesis by blast
  next
    case False
    let ?done0 = "int (length (filter (artifact_exists E s) ?fl))"
    let ?s3 = "loop_start E (int (length ?fl)) ?done0 (int (length ?pending)) s"
    let ?B0 = "\<lparr> done_count = ?done0, errors = 0, file_times = [], recent_files = [] \<rparr>"
    let ?run = "run_pending E (int (length ?fl)) (int (length ?pending)) (fst (time_time E ?s3)) 1
                  ?pending ?B0 (snd (time_time E ?s3))"
    have inv: "tally_inv 0 tally0 ?B0" by (simp add: tally_inv_def tally0_def)
    have pn: "\<forall>pdf\<in>set ?pending. name_ok E pdf" using names by auto
    have "\<exists>B' q' att. fst ?run = Inr B'
          \<and> follows tally_step tally0 s (snd ?run) q'
          \<and> tally_inv 0 q' B'
          \<and> t_opened q' = t_opened tally0 @ att \<and> subseq att ?pending
          \<and> done_count B' = done_count ?B0 + int (length ?pending) - int (length att)"
      by (rule run_pending_tally [OF follows_loop_start(1) inv pn])
    then obtain B' q' where r: "fst ?run = Inr B'"
      and f: "follows tally_step tally0 s (snd ?run) q'" and i: "tally_inv 0 q' B'"
      by blast
    obtain s5 where run: "?run = (Inr B', s5)" using r by (cases ?run) simp
    have res: "snd (run_ocr E scanned mixed s) = finish E (int (length ?pending)) B' s5"
      unfolding run_ocr_loop [OF names False] using run by (simp add: Let_def)
    from f run have "follows tally_step tally0 s (finish E (int (length ?pending)) B' s5) q'"
      by (simp add: follows_finish)
    from tally_observed [OF follows_new_events [OF this]] quiet res
    have "t_errors q' = 0" by (simp add: tally0_def)
    with i have e: "errors B' = errors ?B0" by (simp add: tally_inv_def)
    from run_pending_artifacts [OF pn r] e run
    have kept: "\<And>pdf. artifact_exists E (snd (time_time E ?s3)) pdf \<Longrightarrow> artifact_exists E s5 pdf"
      and got: "\<forall>pdf\<in>set ?pending. artifact_exists E s5 pdf"
      by simp_all
    have start: "artifact_exists E (snd (time_time E ?s3)) pdf = artifact_exists E s pdf" for pdf
      by (rule artifact_exists_files) (rule loop_start_state)
    have fin: "artifact_exists E (finish E (int (length ?pending)) B' s5) pdf
        = artifact_exists E s5 pdf" for pdf
      by (rule artifact_exists_files) (rule finish_state)
    show ?thesis
    proof
      fix pdf assume m: "pdf \<in> set ?fl"
      show "artifact_exists E (snd (run_ocr E scanned mixed s)) pdf"
      proof (cases "artifact_exists E s pdf")
        case True
        with kept start show ?thesis unfolding res fin by blast
      next
        case False
        with m have "pdf \<in> set ?pending" by simp
        with got show ?thesis unfolding res fin by blast
      qed
    qed
  qed
qed

lemma run_ocr_second_run:
  assumes names: "\<forall>pdf\<in>set (scanned @ mixed). name_ok E pdf"
      and all: "\<forall>pdf\<in>set (scanned @ mixed). artifact_exists E s pdf"
  shows "fst (run_ocr E scanned mixed s) = Inr ()"
    and "opened_files (new_events s (snd (run_ocr E scanned mixed s))) = []"
    and "files (snd (run_ocr E scanned mixed s)) = files s"
    and "\<exists>snap. status_file (snd (run_ocr E scanned mixed s)) = Some snap
          \<and> j_done snap = int (length (scanned @ mixed))
          \<and> j_total snap = int (length (scanned @ mixed))
          \<and> j_errors snap = 0 \<and> j_recent_files snap = []"
    and "\<exists>snap. new_events s (snd (run_ocr E scanned mixed s)) =
           [Log (LogTotals (int (length (scanned @ mixed))) (int (length (scanned @ mixed))) 0),
            Log LogNothing, SaveProgress snap]"
  unfolding run_ocr_nothing [OF names all]
  by (simp_all add: save_progress_def log_def emit_def new_events_def Let_def last10_def)

section \<open>The history of completed files\<close>





end
